theory Spec2Isabelle
  imports Complex_Main
begin

chapter \<open>The model\<close>

section \<open>Process model: output, exit status, collaborator calls\<close>

text \<open>
  The sources are C++ templates: \<^verbatim>\<open>main.cpp\<close> (the driver), \<^verbatim>\<open>continuum/continuum.hpp\<close>,
  \<^verbatim>\<open>continuum/initialisation.hpp\<close>, \<^verbatim>\<open>population/population.hpp\<close> and
  \<^verbatim>\<open>population/population_indexing_avx.hpp\<close>. Everything the driver calls that is defined
  in another header (boundary enforcers, collision operators, export, timer, geometry) is
  recorded as an event of the run's trace and taken to return normally.
\<close>

datatype bc_type = Velocity | Pressure

datatype orientation = Left | Right

datatype boundary_list = wall | inlet | outlet

datatype event =
    Cerr string
  | Cout string
  | PrintDisclaimer
  | InitialOutput
  | ExportParameters
  | Cylinder3D
  | Call_InitContinuum
  | InitLattice bool
  | Timer_Start
  | Timer_Stop
  | PerformanceOutput
  | Guo bool bc_type orientation boundary_list nat
  | CollideStreamBGK_Smagorinsky bool bool nat
  | BounceBackHalfway bool boundary_list nat
  | StatusOutput nat nat
  | SetZero boundary_list
  | ExportVtk nat



definition EXIT_FAILURE :: nat where
  "EXIT_FAILURE = 1"

section \<open>Construction of the two fields\<close>

text \<open>
  \<^verbatim>\<open>T* const M_ = (T*) aligned_alloc(CACHE_LINE, memSize_)\<close>: the pointer is \<open>None\<close> when
  \<^verbatim>\<open>aligned_alloc\<close> returns \<^verbatim>\<open>nullptr\<close>, otherwise the block it points to. What the
  allocator returns is the constructor's input. The members \<^verbatim>\<open>M_\<close>, \<^verbatim>\<open>F_\<close>, \<^verbatim>\<open>NU_\<close>,
  \<^verbatim>\<open>TAU_\<close>, ... are the fields \<open>Continuum_M\<close>, \<open>Population_F\<close>, \<open>Population_NU\<close>,
  \<open>Population_TAU\<close>, ... (a HOL name cannot end with an underscore).
\<close>

record 'a Continuum =
  Continuum_M :: "'a list option"

text \<open>
  \<^verbatim>\<open>Continuum()\<close> (continuum.hpp, lines 38-44): a message on \<^verbatim>\<open>std::cerr\<close> when the
  pointer is null, and nothing else; the constructor body has no \<^verbatim>\<open>exit\<close>. The result
  is the output and either an exit status (\<open>Inl\<close>) or the constructed object (\<open>Inr\<close>).
\<close>

definition Continuum_ctor :: "'a list option \<Rightarrow> event list \<times> (nat + 'a Continuum)" where
  "Continuum_ctor alloc =
     (if alloc = None
      then ([Cerr ''Fatal error: Population could not be allocated.''], Inr \<lparr>Continuum_M = alloc\<rparr>)
      else ([], Inr \<lparr>Continuum_M = alloc\<rparr>))"

text \<open>
  The physical parameters of \<^verbatim>\<open>Population\<close> are of the lattice's floating type
  \<^verbatim>\<open>T\<close>. They are modelled by real numbers: the model states which expression each field
  is initialised with, not the binary64 value that is stored. The two differ by the
  rounding of each operation, and where the program divides by zero (\<open>Re = 0\<close> gives an
  infinite \<^verbatim>\<open>NU_\<close> and \<^verbatim>\<open>TAU_\<close>), since a quotient by zero is 0 in HOL. The null
  test of the buffer and the output of the constructor do not depend on these fields, and
  no property of the program is settled below on the value of a field other than where
  all operations are exact in binary64 (a viscosity of zero).
\<close>

record Population =
  Population_F :: "real list option"
  Population_NU :: real
  Population_TAU :: real
  Population_OMEGA :: real
  Population_LAMBDA :: real
  Population_OMEGA_M :: real

text \<open>
  \<^verbatim>\<open>Population(T const Re, T const U, unsigned int const L, T const LAMBDA = 0.25)\<close>
  (population.hpp, lines 73-82). \<open>CS\<close> is the lattice's speed of sound \<^verbatim>\<open>LT::CS\<close>, a
  constant of the lattice header, which is not among the sources: it is a parameter.
  The Reynolds number \<^verbatim>\<open>Re\<close> is written \<open>Rn\<close> (\<open>Re\<close> is the real part in HOL).
  The member initialisers run first, then the body, whose only test is the null test of
  \<^verbatim>\<open>F_\<close>.
\<close>

definition Population_ctor ::
  "real \<Rightarrow> real list option \<Rightarrow> real \<Rightarrow> real \<Rightarrow> nat \<Rightarrow> real \<Rightarrow> event list \<times> (nat + Population)" where
  "Population_ctor CS alloc Rn U L LAMBDA =
     (let NU = U * real L / Rn;
          TAU = NU / (CS * CS) + 1 / 2;
          OMEGA = 1 / TAU;
          OMEGA_M = (TAU - 1 / 2) / (LAMBDA + 1 / 2 * (TAU - 1 / 2));
          pop = \<lparr>Population_F = alloc, Population_NU = NU, Population_TAU = TAU,
                 Population_OMEGA = OMEGA, Population_LAMBDA = LAMBDA,
                 Population_OMEGA_M = OMEGA_M\<rparr>
      in if alloc = None
         then ([Cerr ''Fatal error: Population could not be allocated.''], Inl EXIT_FAILURE)
         else ([], Inr pop))"

section \<open>The time-stepping driver\<close>

text \<open>
  One parity of the loop body of \<^verbatim>\<open>main\<close> (main.cpp, lines 115-118 and 121-124): the four
  calls in source order. \<open>od\<close> is the template argument \<^verbatim>\<open>odd\<close>; the last argument of
  each call is the population index, the literal 0 in the source.
\<close>

definition parity_pass :: "bool \<Rightarrow> bool \<Rightarrow> event list" where
  "parity_pass od save =
     [Guo od Velocity Left inlet 0,
      Guo od Pressure Right outlet 0,
      CollideStreamBGK_Smagorinsky od save 0,
      BounceBackHalfway od wall 0]"

text \<open>The body of the \<^verbatim>\<open>if\<close> at lines 126-132 (the call of \<^verbatim>\<open>Export\<close> is commented out).\<close>

definition export_step :: "nat \<Rightarrow> nat \<Rightarrow> event list" where
  "export_step i NT = [StatusOutput i NT, SetZero wall, ExportVtk i]"

text \<open>
  \<^verbatim>\<open>for (size_t i = 0; i < NT; i+=2)\<close> (lines 112-133), with the trace so far as the state.
  \<^verbatim>\<open>i\<close> is a 64-bit \<^verbatim>\<open>size_t\<close> and \<^verbatim>\<open>NT\<close> an \<^verbatim>\<open>unsigned int\<close>, so \<^verbatim>\<open>i + 2\<close> does not
  wrap while \<^verbatim>\<open>i < NT\<close>. The condition \<^verbatim>\<open>(save == true) && (i % (NT/10) == 0)\<close> evaluates
  the remainder only when \<^verbatim>\<open>save\<close> holds; for \<^verbatim>\<open>NT < 10\<close> the divisor is 0 and the
  behaviour is undefined, which is the result \<open>None\<close>.
\<close>

function main_loop :: "nat \<Rightarrow> bool \<Rightarrow> nat \<Rightarrow> event list \<Rightarrow> event list option" where
  "main_loop NT save i tr =
     (if i < NT then
        (let tr1 = tr @ parity_pass False save @ parity_pass True save in
         if save then
           (if NT div 10 = 0 then None
            else if i mod (NT div 10) = 0
              then main_loop NT save (i + 2) (tr1 @ export_step i NT)
              else main_loop NT save (i + 2) tr1)
         else main_loop NT save (i + 2) tr1)
      else Some tr)"
  by pat_completeness auto
termination
  by (relation "measure (\<lambda>(NT, save, i, tr). NT - i)") auto

declare main_loop.simps [simp del]


definition main_NT :: nat where
  "main_NT = 10000"




definition main_save :: bool where
  "main_save = True"





section \<open>Block decomposition and initialisation of the continuum\<close>

text \<open>
  The extents \<^verbatim>\<open>NX\<close>, \<^verbatim>\<open>NY\<close>, \<^verbatim>\<open>NZ\<close>, the block counts and the loop bounds are
  \<^verbatim>\<open>unsigned int\<close>: 32 bits, arithmetic modulo \<open>2\<^sup>3\<^sup>2\<close>. They are natural numbers here and
  every sum and product the source computes in \<^verbatim>\<open>unsigned int\<close> is wrapped explicitly.
\<close>

definition wrap32 :: "nat \<Rightarrow> nat" where
  "wrap32 n = n mod 2 ^ 32"

definition BLOCK_SIZE :: nat where
  "BLOCK_SIZE = 32"

text \<open>
  Modelled from the spec: \<^verbatim>\<open>cef::ceil\<close> of \<^verbatim>\<open>general/constexpr_func.hpp\<close>, which is not among
  the sources: the ceiling function, so that the blocks of edge length 32 cover the domain.
  Its argument \<^verbatim>\<open>static_cast<double>(N) / BLOCK_SIZE\<close> is exact in binary64 for every
  32-bit \<^verbatim>\<open>N\<close> (a division by a power of two), so the quotient is taken over the reals.
\<close>

definition cef_ceil :: "real \<Rightarrow> nat" where
  "cef_ceil x = nat \<lceil>x\<rceil>"

text \<open>initialisation.hpp, lines 37-41 (the same constants as population.hpp, lines 50-54).\<close>

definition NUM_BLOCKS_Z :: "nat \<Rightarrow> nat" where
  "NUM_BLOCKS_Z NZ = cef_ceil (real NZ / real BLOCK_SIZE)"

definition NUM_BLOCKS_Y :: "nat \<Rightarrow> nat" where
  "NUM_BLOCKS_Y NY = cef_ceil (real NY / real BLOCK_SIZE)"

definition NUM_BLOCKS_X :: "nat \<Rightarrow> nat" where
  "NUM_BLOCKS_X NX = cef_ceil (real NX / real BLOCK_SIZE)"

definition NUM_BLOCKS :: "nat \<Rightarrow> nat \<Rightarrow> nat \<Rightarrow> nat" where
  "NUM_BLOCKS NX NY NZ = wrap32 (wrap32 (NUM_BLOCKS_X NX * NUM_BLOCKS_Y NY) * NUM_BLOCKS_Z NZ)"

text \<open>The loop bounds of one block (lines 46-47, 51-52 and 56-57).\<close>

definition z_start :: "nat \<Rightarrow> nat \<Rightarrow> nat \<Rightarrow> nat" where
  "z_start NX NY block =
     wrap32 (BLOCK_SIZE * (block div wrap32 (NUM_BLOCKS_X NX * NUM_BLOCKS_Y NY)))"

definition z_end :: "nat \<Rightarrow> nat \<Rightarrow> nat \<Rightarrow> nat \<Rightarrow> nat" where
  "z_end NX NY NZ block = min (wrap32 (z_start NX NY block + BLOCK_SIZE)) NZ"

definition y_start :: "nat \<Rightarrow> nat \<Rightarrow> nat \<Rightarrow> nat" where
  "y_start NX NY block =
     wrap32 (BLOCK_SIZE *
       ((block mod wrap32 (NUM_BLOCKS_X NX * NUM_BLOCKS_Y NY)) div NUM_BLOCKS_X NX))"

definition y_end :: "nat \<Rightarrow> nat \<Rightarrow> nat \<Rightarrow> nat" where
  "y_end NX NY block = min (wrap32 (y_start NX NY block + BLOCK_SIZE)) NY"

definition x_start :: "nat \<Rightarrow> nat \<Rightarrow> nat" where
  "x_start NX block = wrap32 (BLOCK_SIZE * (block mod NUM_BLOCKS_X NX))"

definition x_end :: "nat \<Rightarrow> nat \<Rightarrow> nat" where
  "x_end NX block = min (wrap32 (x_start NX block + BLOCK_SIZE)) NX"

text \<open>
  A counted loop over the values of a list, with a body that may fail: the first failure
  ends the loop.
\<close>

fun for_loop :: "nat list \<Rightarrow> (nat \<Rightarrow> 's \<Rightarrow> 's option) \<Rightarrow> 's \<Rightarrow> 's option" where
  "for_loop [] body s = Some s"
| "for_loop (i # is) body s = Option.bind (body i s) (for_loop is body)"

text \<open>
  A write and a read of \<^verbatim>\<open>M_[i]\<close>. Through a null pointer or outside the allocated block
  the behaviour is undefined: the result is \<open>None\<close>.
\<close>

definition Continuum_store :: "nat \<Rightarrow> 'a \<Rightarrow> 'a Continuum \<Rightarrow> 'a Continuum option" where
  "Continuum_store i v con =
     (case Continuum_M con of
        None \<Rightarrow> None
      | Some buf \<Rightarrow> if i < length buf then Some (con\<lparr>Continuum_M := Some (buf[i := v])\<rparr>) else None)"

definition Continuum_load :: "nat \<Rightarrow> 'a Continuum \<Rightarrow> 'a option" where
  "Continuum_load i con =
     (case Continuum_M con of
        None \<Rightarrow> None
      | Some buf \<Rightarrow> if i < length buf then Some (buf ! i) else None)"

text \<open>
  Modelled from the spec: the two \<^verbatim>\<open>operator()\<close> of \<^verbatim>\<open>Continuum\<close> (declared in continuum.hpp,
  lines 57-58; their definitions are in \<^verbatim>\<open>continuum_indexing.hpp\<close>, which is not among the
  sources). The spec describes the field as a flat buffer of \<open>NX \<cdot> NY \<cdot> NZ \<cdot> 4\<close> values, four
  per cell, so \<^verbatim>\<open>con(x,y,z,m)\<close> is the buffer element at a linear offset of \<open>(x, y, z, m)\<close>.
  The offset function \<open>lin\<close> is a parameter.
\<close>

definition Continuum_write ::
  "(nat \<Rightarrow> nat \<Rightarrow> nat \<Rightarrow> nat \<Rightarrow> nat) \<Rightarrow> nat \<Rightarrow> nat \<Rightarrow> nat \<Rightarrow> nat \<Rightarrow> 'a \<Rightarrow> 'a Continuum
     \<Rightarrow> 'a Continuum option" where
  "Continuum_write lin x y z m v con = Continuum_store (lin x y z m) v con"

definition Continuum_read ::
  "(nat \<Rightarrow> nat \<Rightarrow> nat \<Rightarrow> nat \<Rightarrow> nat) \<Rightarrow> nat \<Rightarrow> nat \<Rightarrow> nat \<Rightarrow> nat \<Rightarrow> 'a Continuum \<Rightarrow> 'a option" where
  "Continuum_read lin x y z m con = Continuum_load (lin x y z m) con"

text \<open>
  \<^verbatim>\<open>InitContinuum\<close> (initialisation.hpp, lines 33-69). The block loop is an OpenMP
  \<^verbatim>\<open>parallel for\<close>; the model runs the blocks in increasing order. The loop variables are
  below their bounds, which are at most \<open>NX\<close>, \<open>NY\<close>, \<open>NZ\<close> and \<open>NUM_BLOCKS\<close>, so their
  increments do not wrap. The values are of the floating type \<^verbatim>\<open>T\<close>; they are only stored
  and read, so their type is arbitrary.
\<close>

definition InitContinuum ::
  "(nat \<Rightarrow> nat \<Rightarrow> nat \<Rightarrow> nat \<Rightarrow> nat) \<Rightarrow> nat \<Rightarrow> nat \<Rightarrow> nat \<Rightarrow> 'a \<Rightarrow> 'a \<Rightarrow> 'a \<Rightarrow> 'a
     \<Rightarrow> 'a Continuum \<Rightarrow> 'a Continuum option" where
  "InitContinuum lin NX NY NZ RHO_0 U_0 V_0 W_0 con =
     for_loop [0..<NUM_BLOCKS NX NY NZ] (\<lambda>block.
       for_loop [z_start NX NY block..<z_end NX NY NZ block] (\<lambda>z.
         for_loop [y_start NX NY block..<y_end NX NY block] (\<lambda>y.
           for_loop [x_start NX block..<x_end NX block] (\<lambda>x con.
             Option.bind (Option.bind (Option.bind
               (Continuum_write lin x y z 0 RHO_0 con)
               (Continuum_write lin x y z 1 U_0))
               (Continuum_write lin x y z 2 V_0))
               (Continuum_write lin x y z 3 W_0))))) con"

section \<open>Loading a cell of the population\<close>

text \<open>
  \<^verbatim>\<open>Population::Load\<close> (population_indexing_avx.hpp, lines 13-43; the AVX variant is
  commented out). \<open>F\<close> is the population buffer, \<open>f\<close> the local array \<^verbatim>\<open>T (&f)[ND]\<close>, whose
  length is \<^verbatim>\<open>ND\<close>; \<open>x\<close>, \<open>y\<close>, \<open>z\<close> are the three-element coordinate windows. The index
  function \<^verbatim>\<open>AA_IndexRead<odd>\<close> is declared in population.hpp (lines 99-101) and defined in
  \<^verbatim>\<open>population_indexing.hpp\<close>, which is not among the sources: it is a parameter. A read
  outside \<open>F\<close> or a write outside \<open>f\<close> is undefined behaviour, the result \<open>None\<close>.
\<close>

definition Load ::
  "(bool \<Rightarrow> nat list \<Rightarrow> nat list \<Rightarrow> nat list \<Rightarrow> nat \<Rightarrow> nat \<Rightarrow> nat \<Rightarrow> nat) \<Rightarrow> nat \<Rightarrow> 'a::zero list
     \<Rightarrow> bool \<Rightarrow> nat list \<Rightarrow> nat list \<Rightarrow> nat list \<Rightarrow> 'a list \<Rightarrow> nat \<Rightarrow> 'a list option" where
  "Load AA_IndexRead OFF F od x y z f p =
     Option.bind
       (for_loop [0..<2] (\<lambda>n.
          for_loop [0..<OFF] (\<lambda>d f.
            if AA_IndexRead od x y z n d p < length F \<and> n * OFF + d < length f
            then Some (f[n * OFF + d := F ! AA_IndexRead od x y z n d p])
            else None)) f)
       (\<lambda>f. if OFF < length f then Some (f[OFF := 0]) else None)"

section \<open>Linear indexing of the population\<close>

text \<open>
  Modelled from the spec: \<^verbatim>\<open>Population::SpatialToLinear\<close> and
  \<^verbatim>\<open>Population::LinearToSpatial\<close>. population.hpp (lines 93-97) only declares them, with the
  parameters \<open>(x, y, z, n, d, p)\<close> and \<open>(x, y, z, p, n, d, index)\<close>; the definitions are in
  \<^verbatim>\<open>population_indexing.hpp\<close>, which is not among the sources. The spec describes the
  buffer as one lattice of \<open>NX \<times> NY \<times> NZ\<close> cells, \<open>NPOP\<close> populations side by side,
  \<open>ND\<close> values per cell and population, the two halves \<open>n = 0, 1\<close> of the directions \<open>OFF\<close>
  apart. The inverse peels the coordinates off by division.
\<close>

definition SpatialToLinear ::
  "nat \<Rightarrow> nat \<Rightarrow> nat \<Rightarrow> nat \<Rightarrow> nat \<Rightarrow> nat \<Rightarrow> nat \<Rightarrow> nat \<Rightarrow> nat \<Rightarrow> nat \<Rightarrow> nat \<Rightarrow> nat" where
  "SpatialToLinear NX NY NPOP ND OFF x y z n d p =
     (((z * NY + y) * NX + x) * NPOP + p) * ND + n * OFF + d"

definition LinearToSpatial ::
  "nat \<Rightarrow> nat \<Rightarrow> nat \<Rightarrow> nat \<Rightarrow> nat \<Rightarrow> nat \<Rightarrow> nat \<times> nat \<times> nat \<times> nat \<times> nat \<times> nat" where
  "LinearToSpatial NX NY NPOP ND OFF index =
     (let z = index div (ND * NPOP * NX * NY);
          rest = index mod (ND * NPOP * NX * NY);
          y = rest div (ND * NPOP * NX);
          rest = rest mod (ND * NPOP * NX);
          x = rest div (ND * NPOP);
          rest = rest mod (ND * NPOP);
          p = rest div ND;
          rest = rest mod ND;
          n = rest div OFF;
          d = rest mod OFF
      in (x, y, z, p, n, d))"

text \<open>
  Modelled from the spec: \<^verbatim>\<open>Continuum::SpatialToLinear\<close> (declared in continuum.hpp, lines
  53-54, defined in the absent \<^verbatim>\<open>continuum_indexing.hpp\<close>), as the row-major offset of a
  buffer with four values per cell. It instantiates the offset parameter of
  \<open>InitContinuum\<close> where a concrete layout is needed.
\<close>

definition Continuum_SpatialToLinear :: "nat \<Rightarrow> nat \<Rightarrow> nat \<Rightarrow> nat \<Rightarrow> nat \<Rightarrow> nat \<Rightarrow> nat" where
  "Continuum_SpatialToLinear NX NY x y z m = ((z * NY + y) * NX + x) * 4 + m"

section \<open>Notions used to state the properties\<close>

text \<open>The values \<^verbatim>\<open>i\<close> takes in the driver's loop, from \<open>i\<close> on.\<close>

function loop_indices :: "nat \<Rightarrow> nat \<Rightarrow> nat list" where
  "loop_indices i NT = (if i < NT then i # loop_indices (i + 2) NT else [])"
  by pat_completeness auto
termination
  by (relation "measure (\<lambda>(i, NT). NT - i)") auto

declare loop_indices.simps [simp del]

text \<open>The events of the loop iteration with index \<open>i\<close>.\<close>

definition iteration :: "nat \<Rightarrow> bool \<Rightarrow> nat \<Rightarrow> event list" where
  "iteration NT save i =
     parity_pass False save @ parity_pass True save
       @ (if save \<and> i mod (NT div 10) = 0 then export_step i NT else [])"

text \<open>The calls of a parity pass, and the calls of an export.\<close>

fun is_step :: "event \<Rightarrow> bool" where
  "is_step (Guo od t ori b p) = True"
| "is_step (CollideStreamBGK_Smagorinsky od save p) = True"
| "is_step (BounceBackHalfway od b p) = True"
| "is_step e = False"

fun is_export :: "event \<Rightarrow> bool" where
  "is_export (StatusOutput i NT) = True"
| "is_export (SetZero b) = True"
| "is_export (ExportVtk i) = True"
| "is_export e = False"

text \<open>A cell lies in the start-end ranges of a block.\<close>

definition in_block :: "nat \<Rightarrow> nat \<Rightarrow> nat \<Rightarrow> nat \<Rightarrow> nat \<Rightarrow> nat \<Rightarrow> nat \<Rightarrow> bool" where
  "in_block NX NY NZ block x y z \<longleftrightarrow>
     z_start NX NY block \<le> z \<and> z < z_end NX NY NZ block
     \<and> y_start NX NY block \<le> y \<and> y < y_end NX NY block
     \<and> x_start NX block \<le> x \<and> x < x_end NX block"

text \<open>
  The extents for which no 32-bit operation of the block arithmetic wraps around: each
  extent is at most \<open>2\<^sup>3\<^sup>2 - 32\<close> and the number of blocks is below \<open>2\<^sup>3\<^sup>2\<close>.
\<close>

definition no_wrap :: "nat \<Rightarrow> nat \<Rightarrow> nat \<Rightarrow> bool" where
  "no_wrap NX NY NZ \<longleftrightarrow>
     NX + 32 \<le> 2 ^ 32 \<and> NY + 32 \<le> 2 ^ 32 \<and> NZ + 32 \<le> 2 ^ 32
     \<and> NUM_BLOCKS_X NX * NUM_BLOCKS_Y NY * NUM_BLOCKS_Z NZ < 2 ^ 32"

text \<open>
  The cells the three inner loops of \<open>InitContinuum\<close> visit for one block, and the cells the
  whole loop nest visits, in the order of the visits.
\<close>

definition block_cells :: "nat \<Rightarrow> nat \<Rightarrow> nat \<Rightarrow> nat \<Rightarrow> (nat \<times> nat \<times> nat) list" where
  "block_cells NX NY NZ block =
     concat (map (\<lambda>z.
       concat (map (\<lambda>y.
         map (\<lambda>x. (x, y, z)) [x_start NX block..<x_end NX block])
         [y_start NX NY block..<y_end NX NY block]))
       [z_start NX NY block..<z_end NX NY NZ block])"

definition visited :: "nat \<Rightarrow> nat \<Rightarrow> nat \<Rightarrow> (nat \<times> nat \<times> nat) list" where
  "visited NX NY NZ = concat (map (block_cells NX NY NZ) [0..<NUM_BLOCKS NX NY NZ])"

text \<open>The four stores of the innermost loop body at one cell, and a sequence of stores.\<close>

definition cell_writes ::
  "(nat \<Rightarrow> nat \<Rightarrow> nat \<Rightarrow> nat \<Rightarrow> nat) \<Rightarrow> 'a \<Rightarrow> 'a \<Rightarrow> 'a \<Rightarrow> 'a \<Rightarrow> nat \<times> nat \<times> nat \<Rightarrow> (nat \<times> 'a) list" where
  "cell_writes lin RHO_0 U_0 V_0 W_0 c =
     (case c of (x, y, z) \<Rightarrow>
        [(lin x y z 0, RHO_0), (lin x y z 1, U_0), (lin x y z 2, V_0), (lin x y z 3, W_0)])"

fun store_all :: "(nat \<times> 'a) list \<Rightarrow> 'a Continuum \<Rightarrow> 'a Continuum option" where
  "store_all [] con = Some con"
| "store_all (w # ws) con = Option.bind (Continuum_store (fst w) (snd w) con) (store_all ws)"

text \<open>
  What \<open>InitContinuum\<close> needs of the offset function: the offsets of the cells of the
  domain lie inside a buffer of \<open>n\<close> elements and are pairwise different.
\<close>

definition Continuum_layout ::
  "(nat \<Rightarrow> nat \<Rightarrow> nat \<Rightarrow> nat \<Rightarrow> nat) \<Rightarrow> nat \<Rightarrow> nat \<Rightarrow> nat \<Rightarrow> nat \<Rightarrow> bool" where
  "Continuum_layout lin NX NY NZ n \<longleftrightarrow>
     (\<forall>x y z m. x < NX \<and> y < NY \<and> z < NZ \<and> m < 4 \<longrightarrow> lin x y z m < n)
     \<and> (\<forall>x y z m x' y' z' m'.
           x < NX \<and> y < NY \<and> z < NZ \<and> m < 4 \<and> x' < NX \<and> y' < NY \<and> z' < NZ \<and> m' < 4
           \<and> lin x y z m = lin x' y' z' m'
           \<longrightarrow> x = x' \<and> y = y' \<and> z = z' \<and> m = m')"

text \<open>A buffer of \<open>n\<close> equal values: some content of a block before it is initialised.\<close>

definition filled_buffer :: "nat \<Rightarrow> real \<Rightarrow> real list" where
  "filled_buffer n v = replicate n v"

text \<open>The coordinates of the population buffer.\<close>

definition valid_coordinates ::
  "nat \<Rightarrow> nat \<Rightarrow> nat \<Rightarrow> nat \<Rightarrow> nat \<Rightarrow> (nat \<times> nat \<times> nat \<times> nat \<times> nat \<times> nat) set" where
  "valid_coordinates NX NY NZ NPOP OFF =
     {(x, y, z, p, n, d). x < NX \<and> y < NY \<and> z < NZ \<and> p < NPOP \<and> n < 2 \<and> d < OFF}"

chapter \<open>Properties\<close>

section \<open>Allocation failure\<close>

lemma Population_ctor_null_exits:
  "Population_ctor CS None Rn U L LAMBDA =
     ([Cerr ''Fatal error: Population could not be allocated.''], Inl 1)"
  by (simp add: Population_ctor_def EXIT_FAILURE_def)

text \<open>
  C1. Claimed: whenever the allocation of either buffer fails, the failure is reported and
  the process exits with a non-zero status, so that no object is constructed around a null
  buffer. \<^verbatim>\<open>Population\<close> does so (lemma \<open>Population_ctor_null_exits\<close>). \<^verbatim>\<open>Continuum\<close>
  prints the message and returns: with a null pointer the constructor yields an object whose
  \<^verbatim>\<open>M_\<close> is null and the process goes on.
\<close>

theorem Continuum_ctor_null_completes:
  "Continuum_ctor (None :: real list option) =
     ([Cerr ''Fatal error: Population could not be allocated.''], Inr \<lparr>Continuum_M = None\<rparr>)"
  by (simp add: Continuum_ctor_def)

section \<open>The relaxation time is not validated\<close>



text \<open>
  The invariant \<open>TAU > 1/2\<close>, \<open>OMEGA = 1 / TAU\<close>, \<open>0 < OMEGA < 2\<close> in exact arithmetic, for
  a positive Reynolds number, velocity and length and a non-zero speed of sound. The fields
  of the program are binary64 values, each operation rounded; rounding is outside this
  model (a viscosity far below \<open>2\<^sup>-\<^sup>5\<^sup>4\<close> is absorbed by the addition of \<open>1/2\<close>), so this is
  a statement about the formulas of the member initialisers, not about the stored values.
\<close>

lemma Population_ctor_exact_arithmetic:
  assumes "0 < Rn" and "0 < U" and "0 < L" and "CS \<noteq> 0"
  shows "\<exists>pop. Population_ctor CS (Some buf) Rn U L LAMBDA = ([], Inr pop)
           \<and> 1 / 2 < Population_TAU pop
           \<and> Population_OMEGA pop = 1 / Population_TAU pop
           \<and> 0 < Population_OMEGA pop \<and> Population_OMEGA pop < 2"
proof -
  define t where "t = U * real L / Rn / (CS * CS) + 1 / 2"
  have "0 < CS * CS"
    using assms(4) by (simp add: power2_eq_square [symmetric])
  moreover have "0 < U * real L / Rn"
    using assms by simp
  ultimately have "0 < U * real L / Rn / (CS * CS)"
    by (simp only: divide_pos_pos)
  then have t: "1 / 2 < t" by (simp add: t_def)
  then have o1: "0 < 1 / t" by simp
  have o2: "1 / t < 2" using t by (simp add: field_simps)
  let ?pop = "\<lparr>Population_F = Some buf, Population_NU = U * real L / Rn, Population_TAU = t,
               Population_OMEGA = 1 / t, Population_LAMBDA = LAMBDA,
               Population_OMEGA_M = (t - 1 / 2) / (LAMBDA + 1 / 2 * (t - 1 / 2))\<rparr>"
  have "Population_ctor CS (Some buf) Rn U L LAMBDA = ([], Inr ?pop)"
    by (simp add: Population_ctor_def Let_def t_def)
  moreover have "1 / 2 < Population_TAU ?pop" using t by simp
  moreover have "Population_OMEGA ?pop = 1 / Population_TAU ?pop" by simp
  moreover have "0 < Population_OMEGA ?pop" using o1 by simp
  moreover have "Population_OMEGA ?pop < 2" using o2 by simp
  ultimately show ?thesis by blast
qed

section \<open>The time-stepping driver\<close>

lemma main_loop_trace:
  "\<not> save \<or> 10 \<le> NT \<Longrightarrow>
   main_loop NT save i tr = Some (tr @ concat (map (iteration NT save) (loop_indices i NT)))"
proof (induction NT save i tr rule: main_loop.induct)
  case (1 NT save i tr)
  show ?case
  proof (cases "i < NT")
    case False
    then show ?thesis
      by (simp add: main_loop.simps [of NT save i tr] loop_indices.simps [of i NT])
  next
    case True
    from "1.prems" have nz: "save \<Longrightarrow> NT div 10 \<noteq> 0" by auto
    show ?thesis
      using True "1.IH" "1.prems" nz
      by (auto simp: main_loop.simps [of NT save i tr] loop_indices.simps [of i NT]
            iteration_def Let_def)
  qed
qed

lemma loop_indices_filter: "loop_indices i NT = filter (\<lambda>k. even (k - i)) [i..<NT]"
proof (induction i NT rule: loop_indices.induct)
  case (1 i NT)
  show ?case
  proof (cases "i < NT")
    case False
    then show ?thesis by (simp add: loop_indices.simps [of i NT])
  next
    case True
    have a: "[i..<NT] = i # [Suc i..<NT]" using True by (simp add: upt_conv_Cons)
    have b: "filter (\<lambda>k. even (k - i)) [Suc i..<NT]
               = filter (\<lambda>k. even (k - (i + 2))) [i + 2..<NT]"
    proof (cases "Suc i < NT")
      case False
      then show ?thesis by simp
    next
      case T2: True
      have "[Suc i..<NT] = Suc i # [i + 2..<NT]" using T2 by (simp add: upt_conv_Cons)
      moreover have "filter (\<lambda>k. even (k - i)) [i + 2..<NT]
                       = filter (\<lambda>k. even (k - (i + 2))) [i + 2..<NT]"
        by (rule filter_cong) auto
      ultimately show ?thesis by simp
    qed
    show ?thesis using True "1.IH" a b by (simp add: loop_indices.simps [of i NT])
  qed
qed

lemma loop_indices_even: "loop_indices 0 NT = filter even [0..<NT]"
  by (simp add: loop_indices_filter)

lemma even_upt: "filter even [0..<2 * m] = map (\<lambda>j. 2 * j) [0..<m]"
  by (induction m) simp_all

lemma loop_indices_half:
  assumes "even NT"
  shows "loop_indices 0 NT = map (\<lambda>j. 2 * j) [0..<NT div 2]"
proof -
  from assms obtain m where "NT = 2 * m" by (elim evenE)
  then show ?thesis by (simp add: loop_indices_even even_upt)
qed

lemma steps_of_iterations:
  "filter is_step (concat (map (iteration NT save) is)) =
   concat (map (\<lambda>i. parity_pass False save @ parity_pass True save) is)"
  by (induction "is") (simp_all add: iteration_def parity_pass_def export_step_def)

lemma exports_of_iterations:
  "filter is_export (concat (map (iteration NT True) is)) =
   concat (map (\<lambda>i. export_step i NT) (filter (\<lambda>i. i mod (NT div 10) = 0) is))"
  by (induction "is") (simp_all add: iteration_def parity_pass_def export_step_def)

lemma passes_alternate:
  "even i \<Longrightarrow> even NT \<Longrightarrow>
   concat (map (\<lambda>i. parity_pass False save @ parity_pass True save) (loop_indices i NT)) =
   concat (map (\<lambda>k. parity_pass (odd k) save) [i..<NT])"
proof (induction i NT rule: loop_indices.induct)
  case (1 i NT)
  show ?case
  proof (cases "i < NT")
    case False
    then show ?thesis by (simp add: loop_indices.simps [of i NT])
  next
    case True
    with "1.prems" have "Suc i < NT" by (metis Suc_lessI even_Suc)
    then have a: "[i..<NT] = i # Suc i # [i + 2..<NT]" using True by (simp add: upt_conv_Cons)
    show ?thesis using True "1.IH" "1.prems" a by (simp add: loop_indices.simps [of i NT])
  qed
qed

text \<open>The events of one loop iteration, written out.\<close>

lemma iteration_events:
  "iteration NT save =
     (\<lambda>i. [Guo False Velocity Left inlet 0, Guo False Pressure Right outlet 0,
           CollideStreamBGK_Smagorinsky False save 0, BounceBackHalfway False wall 0,
           Guo True Velocity Left inlet 0, Guo True Pressure Right outlet 0,
           CollideStreamBGK_Smagorinsky True save 0, BounceBackHalfway True wall 0]
          @ (if save \<and> i mod (NT div 10) = 0
             then [StatusOutput i NT, SetZero wall, ExportVtk i] else []))"
  by (rule ext) (simp add: iteration_def parity_pass_def export_step_def)

text \<open>
  C2. For an even \<open>NT\<close> the driver runs \<open>NT / 2\<close> loop iterations; iteration \<open>j\<close> (loop index
  \<open>i = 2 j\<close>) is the even pass, then the odd pass, then the export of step \<open>i\<close> if it is due,
  and each pass is the inlet's Guo velocity condition, the outlet's Guo pressure condition,
  collision and streaming, and bounce-back on the walls, in this order and once each. So
  the calls of the passes are those of \<open>NT\<close> passes, pass \<open>k\<close> with parity \<open>k mod 2\<close>, which are
  \<open>4 NT\<close> calls. \<open>NT\<close> and \<open>save\<close> are constants of \<^verbatim>\<open>main\<close>: \<open>NT = 10000\<close> is even, and at
  least 10, as the export test needs when \<open>save\<close> holds.
\<close>

theorem main_loop_passes:
  assumes "even NT" and "save \<longrightarrow> 10 \<le> NT"
  shows "main_loop NT save 0 [] =
           Some (concat (map (\<lambda>j.
             [Guo False Velocity Left inlet 0, Guo False Pressure Right outlet 0,
              CollideStreamBGK_Smagorinsky False save 0, BounceBackHalfway False wall 0,
              Guo True Velocity Left inlet 0, Guo True Pressure Right outlet 0,
              CollideStreamBGK_Smagorinsky True save 0, BounceBackHalfway True wall 0]
             @ (if save \<and> (2 * j) mod (NT div 10) = 0
                then [StatusOutput (2 * j) NT, SetZero wall, ExportVtk (2 * j)] else []))
             [0..<NT div 2]))
         \<and> (\<exists>tr. main_loop NT save 0 [] = Some tr
               \<and> filter is_step tr = concat (map (\<lambda>k.
                    [Guo (odd k) Velocity Left inlet 0, Guo (odd k) Pressure Right outlet 0,
                     CollideStreamBGK_Smagorinsky (odd k) save 0, BounceBackHalfway (odd k) wall 0])
                    [0..<NT])
               \<and> length (filter is_step tr) = 4 * NT)"
proof -
  have tr: "main_loop NT save 0 [] = Some (concat (map (iteration NT save) (loop_indices 0 NT)))"
    using assms(2) main_loop_trace [of save NT 0 "[]"] by auto
  have "concat (map (iteration NT save) (loop_indices 0 NT))
          = concat (map (\<lambda>j. iteration NT save (2 * j)) [0..<NT div 2])"
    by (simp add: loop_indices_half [OF assms(1)] comp_def)
  then have full: "main_loop NT save 0 [] =
      Some (concat (map (\<lambda>j. iteration NT save (2 * j)) [0..<NT div 2]))"
    using tr by simp
  have steps: "filter is_step (concat (map (iteration NT save) (loop_indices 0 NT))) =
      concat (map (\<lambda>k. parity_pass (odd k) save) [0..<NT])"
    using assms(1) by (simp add: steps_of_iterations passes_alternate)
  have len: "length (concat (map (\<lambda>k. parity_pass (odd k) save) [0..<NT])) = 4 * NT"
    by (simp add: length_concat parity_pass_def comp_def sum_list_triv)
  show ?thesis
    using full tr steps len
    by (simp add: iteration_events parity_pass_def)
qed

theorem main_loop_passes_witness:
  "main_loop main_NT main_save 0 [] =
     Some (concat (map (\<lambda>j.
       [Guo False Velocity Left inlet 0, Guo False Pressure Right outlet 0,
        CollideStreamBGK_Smagorinsky False main_save 0, BounceBackHalfway False wall 0,
        Guo True Velocity Left inlet 0, Guo True Pressure Right outlet 0,
        CollideStreamBGK_Smagorinsky True main_save 0, BounceBackHalfway True wall 0]
       @ (if main_save \<and> (2 * j) mod (main_NT div 10) = 0
          then [StatusOutput (2 * j) main_NT, SetZero wall, ExportVtk (2 * j)] else []))
       [0..<main_NT div 2]))
   \<and> (\<exists>tr. main_loop main_NT main_save 0 [] = Some tr
         \<and> filter is_step tr = concat (map (\<lambda>k.
              [Guo (odd k) Velocity Left inlet 0, Guo (odd k) Pressure Right outlet 0,
               CollideStreamBGK_Smagorinsky (odd k) main_save 0,
               BounceBackHalfway (odd k) wall 0])
              [0..<main_NT])
         \<and> length (filter is_step tr) = 4 * main_NT)"
  by (rule main_loop_passes) (simp_all add: main_NT_def)

lemma multiples_upt:
  "0 < k \<Longrightarrow> filter (\<lambda>i. i mod k = 0) [0..<k * m] = map (\<lambda>j. k * j) [0..<m]"
proof (induction m)
  case 0
  then show ?case by simp
next
  case (Suc m)
  have "[0..<k * m + k] = [0..<k * m] @ [k * m..<k * m + k]"
    by (rule upt_add_eq_append) simp
  moreover have "[k * m..<k * m + k] = (k * m) # [Suc (k * m)..<k * m + k]"
    using Suc.prems by (intro upt_conv_Cons) simp
  ultimately have split: "[0..<k * Suc m] = [0..<k * m] @ (k * m) # [Suc (k * m)..<k * m + k]"
    by (simp only: mult_Suc_right add.commute)
  have "filter (\<lambda>i. i mod k = 0) [Suc (k * m)..<k * m + k] = []"
  proof -
    have "i mod k \<noteq> 0" if "Suc (k * m) \<le> i" "i < k * m + k" for i
    proof -
      from that have "i = k * m + (i - k * m)" "0 < i - k * m" "i - k * m < k" by simp_all
      then show ?thesis by (metis mod_mult_self4 mod_less less_numeral_extra(3))
    qed
    then show ?thesis by (auto simp: filter_empty_conv)
  qed
  then show ?case
    unfolding split using Suc by simp
qed

text \<open>The loop indices at which \<^verbatim>\<open>main\<close> exports: every 1000 steps, from step 0 on.\<close>

lemma export_indices_main:
  "filter (\<lambda>i. even i \<and> i mod (main_NT div 10) = 0) [0..<main_NT]
     = [0, 1000, 2000, 3000, 4000, 5000, 6000, 7000, 8000, 9000]"
proof -
  have "filter (\<lambda>i. even i \<and> i mod 1000 = 0) [0..<1000 * 10]
      = filter (\<lambda>i. i mod 1000 = 0) [0..<1000 * (10::nat)]"
    by (rule filter_cong) (auto simp: mod_eq_0_iff_dvd)
  also have "\<dots> = map (\<lambda>j. 1000 * j) [0..<10]"
    by (rule multiples_upt) simp
  also have "\<dots> = [0, 1000, 2000, 3000, 4000, 5000, 6000, 7000, 8000, 9000]"
    by (simp add: upt_rec)
  finally show ?thesis by (simp add: main_NT_def)
qed

text \<open>
  C7. With saving enabled the run is, for each even loop index \<open>i < NT\<close> in increasing
  order, the two passes of the iteration followed, exactly when \<open>i mod (NT / 10) = 0\<close>, by
  the export of step \<open>i\<close>: the status line, then \<^verbatim>\<open>SetZero\<close> over the wall list, then
  \<^verbatim>\<open>ExportVtk\<close> of the step, with nothing in between and before the passes of the next
  iteration. So the exports of the run are those of the even \<open>i < NT\<close> with
  \<open>i mod (NT / 10) = 0\<close>. \<open>NT \<ge> 10\<close> keeps the divisor \<open>NT / 10\<close> from being zero; \<^verbatim>\<open>main\<close>
  has \<open>NT = 10000\<close>.
\<close>

theorem main_loop_exports:
  assumes "10 \<le> NT"
  shows "main_loop NT True 0 [] =
           Some (concat (map (\<lambda>i.
             [Guo False Velocity Left inlet 0, Guo False Pressure Right outlet 0,
              CollideStreamBGK_Smagorinsky False True 0, BounceBackHalfway False wall 0,
              Guo True Velocity Left inlet 0, Guo True Pressure Right outlet 0,
              CollideStreamBGK_Smagorinsky True True 0, BounceBackHalfway True wall 0]
             @ (if i mod (NT div 10) = 0
                then [StatusOutput i NT, SetZero wall, ExportVtk i] else []))
             (filter even [0..<NT])))
         \<and> (\<exists>tr. main_loop NT True 0 [] = Some tr
               \<and> filter is_export tr =
                   concat (map (\<lambda>i. [StatusOutput i NT, SetZero wall, ExportVtk i])
                     (filter (\<lambda>i. even i \<and> i mod (NT div 10) = 0) [0..<NT])))"
proof -
  have tr: "main_loop NT True 0 [] = Some (concat (map (iteration NT True) (loop_indices 0 NT)))"
    using assms main_loop_trace [of True NT 0 "[]"] by auto
  have ex: "filter is_export (concat (map (iteration NT True) (loop_indices 0 NT))) =
      concat (map (\<lambda>i. [StatusOutput i NT, SetZero wall, ExportVtk i])
                 (filter (\<lambda>i. even i \<and> i mod (NT div 10) = 0) [0..<NT]))"
    by (simp add: exports_of_iterations loop_indices_filter export_step_def conj_commute)
  show ?thesis
    using tr ex by (simp add: iteration_events loop_indices_even)
qed

theorem main_loop_exports_witness:
  "main_loop main_NT main_save 0 [] =
     Some (concat (map (\<lambda>i.
       [Guo False Velocity Left inlet 0, Guo False Pressure Right outlet 0,
        CollideStreamBGK_Smagorinsky False True 0, BounceBackHalfway False wall 0,
        Guo True Velocity Left inlet 0, Guo True Pressure Right outlet 0,
        CollideStreamBGK_Smagorinsky True True 0, BounceBackHalfway True wall 0]
       @ (if i mod (main_NT div 10) = 0
          then [StatusOutput i main_NT, SetZero wall, ExportVtk i] else []))
       (filter even [0..<main_NT])))
   \<and> (\<exists>tr. main_loop main_NT main_save 0 [] = Some tr
         \<and> filter is_export tr =
             concat (map (\<lambda>i. [StatusOutput i main_NT, SetZero wall, ExportVtk i])
               (filter (\<lambda>i. even i \<and> i mod (main_NT div 10) = 0) [0..<main_NT])))"
  unfolding main_save_def
  by (rule main_loop_exports) (simp add: main_NT_def)

section \<open>The command surface\<close>






section \<open>The block decomposition\<close>

lemma cef_ceil_div: "cef_ceil (real n / real BLOCK_SIZE) = (n + 31) div 32"
proof -
  have "\<lceil>real n / 32\<rceil> = int ((n + 31) div 32)"
  proof (rule ceiling_unique)
    show "real_of_int (int ((n + 31) div 32)) - 1 < real n / 32"
      by linarith
    show "real n / 32 \<le> real_of_int (int ((n + 31) div 32))"
      by linarith
  qed
  then show ?thesis by (simp add: cef_ceil_def BLOCK_SIZE_def)
qed

lemma NUM_BLOCKS_1D:
  "NUM_BLOCKS_X n = (n + 31) div 32"
  "NUM_BLOCKS_Y n = (n + 31) div 32"
  "NUM_BLOCKS_Z n = (n + 31) div 32"
  by (simp_all add: NUM_BLOCKS_X_def NUM_BLOCKS_Y_def NUM_BLOCKS_Z_def cef_ceil_div)

lemma wrap32_id: "n < 2 ^ 32 \<Longrightarrow> wrap32 n = n"
  by (simp add: wrap32_def)

text \<open>
  Whenever the block loop runs, the divisors of \<^verbatim>\<open>block / (NUM_BLOCKS_X*NUM_BLOCKS_Y)\<close> and
  \<^verbatim>\<open>block % NUM_BLOCKS_X\<close> are not zero: the total \<open>div\<close> and \<open>mod\<close> of the model hide no
  division by zero.
\<close>

lemma block_loop_divisors:
  assumes "block < NUM_BLOCKS NX NY NZ"
  shows "wrap32 (NUM_BLOCKS_X NX * NUM_BLOCKS_Y NY) \<noteq> 0" and "NUM_BLOCKS_X NX \<noteq> 0"
proof -
  show w: "wrap32 (NUM_BLOCKS_X NX * NUM_BLOCKS_Y NY) \<noteq> 0"
  proof
    assume "wrap32 (NUM_BLOCKS_X NX * NUM_BLOCKS_Y NY) = 0"
    then have "NUM_BLOCKS NX NY NZ = 0" by (simp add: NUM_BLOCKS_def wrap32_def)
    with assms show False by simp
  qed
  show "NUM_BLOCKS_X NX \<noteq> 0"
  proof
    assume "NUM_BLOCKS_X NX = 0"
    then have "wrap32 (NUM_BLOCKS_X NX * NUM_BLOCKS_Y NY) = 0" by (simp add: wrap32_def)
    with w show False by simp
  qed
qed

lemma div32_less_blocks: "x < n \<Longrightarrow> x div 32 < (n + 31) div (32::nat)"
  by linarith

lemma blocks_times_32: "32 * ((n + 31) div 32) \<le> n + (31::nat)"
  by linarith

text \<open>The digits of a block index in the mixed radix \<open>(bx, by)\<close>.\<close>

lemma block_digits:
  fixes bx :: nat
  assumes "c < bx" and "b < by"
  shows "(a * (bx * by) + b * bx + c) mod bx = c"
    and "((a * (bx * by) + b * bx + c) mod (bx * by)) div bx = b"
    and "(a * (bx * by) + b * bx + c) div (bx * by) = a"
proof -
  have lt: "b * bx + c < bx * by"
  proof -
    have "b * bx + c < b * bx + bx" using assms(1) by simp
    also have "\<dots> = (b + 1) * bx" by simp
    also have "\<dots> \<le> by * bx" using assms(2) by (intro mult_le_mono1) simp
    finally show ?thesis by (simp add: mult.commute)
  qed
  have e: "a * (bx * by) + b * bx + c = (b * bx + c) + a * (bx * by)" by simp
  have "a * (bx * by) + b * bx + c = c + bx * (a * by + b)"
    by (simp add: algebra_simps)
  then show "(a * (bx * by) + b * bx + c) mod bx = c"
    using assms(1) by (simp only: mod_mult_self2 mod_less)
  have m: "(a * (bx * by) + b * bx + c) mod (bx * by) = b * bx + c"
    unfolding e using lt by simp
  show "((a * (bx * by) + b * bx + c) mod (bx * by)) div bx = b"
    unfolding m using assms(1) by simp
  have pos: "bx * by \<noteq> 0" using lt by (cases "bx * by") simp_all
  show "(a * (bx * by) + b * bx + c) div (bx * by) = a"
    unfolding e using lt pos by simp
qed

lemma block_from_digits:
  fixes bx :: nat
  shows "block = (block div (bx * by)) * (bx * by)
            + ((block mod (bx * by)) div bx) * bx + block mod bx"
proof -
  have "(block mod (bx * by)) mod bx = block mod bx"
    by (simp add: mod_mult_eq mod_mod_cancel)
  then have "block mod (bx * by) = ((block mod (bx * by)) div bx) * bx + block mod bx"
    by (metis div_mult_mod_eq)
  then show ?thesis
    by (metis add.assoc div_mult_mod_eq)
qed

lemma NUM_BLOCKS_no_wrap:
  assumes "no_wrap NX NY NZ"
  shows "NUM_BLOCKS NX NY NZ = NUM_BLOCKS_X NX * NUM_BLOCKS_Y NY * NUM_BLOCKS_Z NZ"
proof (cases "NUM_BLOCKS_Z NZ = 0")
  case True
  then show ?thesis by (simp add: NUM_BLOCKS_def wrap32_def)
next
  case False
  then have "NUM_BLOCKS_X NX * NUM_BLOCKS_Y NY
               \<le> NUM_BLOCKS_X NX * NUM_BLOCKS_Y NY * NUM_BLOCKS_Z NZ" by simp
  then have "NUM_BLOCKS_X NX * NUM_BLOCKS_Y NY < 2 ^ 32"
    using assms unfolding no_wrap_def by linarith
  then show ?thesis
    using assms by (simp add: NUM_BLOCKS_def wrap32_id no_wrap_def)
qed

lemma no_wrap_ranges:
  assumes nw: "no_wrap NX NY NZ"
    and b: "block < NUM_BLOCKS NX NY NZ"
  shows "z_start NX NY block = 32 * (block div (NUM_BLOCKS_X NX * NUM_BLOCKS_Y NY))"
    and "z_end NX NY NZ block
           = min (32 * (block div (NUM_BLOCKS_X NX * NUM_BLOCKS_Y NY)) + 32) NZ"
    and "y_start NX NY block
           = 32 * ((block mod (NUM_BLOCKS_X NX * NUM_BLOCKS_Y NY)) div NUM_BLOCKS_X NX)"
    and "y_end NX NY block
           = min (32 * ((block mod (NUM_BLOCKS_X NX * NUM_BLOCKS_Y NY)) div NUM_BLOCKS_X NX) + 32) NY"
    and "x_start NX block = 32 * (block mod NUM_BLOCKS_X NX)"
    and "x_end NX block = min (32 * (block mod NUM_BLOCKS_X NX) + 32) NX"
proof -
  let ?bx = "NUM_BLOCKS_X NX" and ?by = "NUM_BLOCKS_Y NY" and ?bz = "NUM_BLOCKS_Z NZ"
  have b': "block < ?bx * ?by * ?bz" using b NUM_BLOCKS_no_wrap [OF nw] by simp
  then have pos: "0 < ?bx * ?by * ?bz" by linarith
  then have bx: "0 < ?bx" and "by": "0 < ?by" and bz: "0 < ?bz" by simp_all
  have "?bx * ?by \<le> ?bx * ?by * ?bz" using bz by simp
  then have xy: "?bx * ?by < 2 ^ 32" using nw unfolding no_wrap_def by linarith
  have w: "wrap32 (?bx * ?by) = ?bx * ?by" using xy by (rule wrap32_id)
  have dz: "block div (?bx * ?by) < ?bz"
    using b' by (simp add: less_mult_imp_div_less mult.commute)
  have "block mod (?bx * ?by) < ?by * ?bx" using bx "by" by (simp add: mult.commute)
  then have dy: "(block mod (?bx * ?by)) div ?bx < ?by"
    by (rule less_mult_imp_div_less)
  have dx: "block mod ?bx < ?bx" using bx by simp
  have cz: "32 * (block div (?bx * ?by)) + 32 \<le> NZ + 31"
    using dz blocks_times_32 [of NZ] unfolding NUM_BLOCKS_1D by linarith
  have cy: "32 * ((block mod (?bx * ?by)) div ?bx) + 32 \<le> NY + 31"
    using dy blocks_times_32 [of NY] unfolding NUM_BLOCKS_1D by linarith
  have cx: "32 * (block mod ?bx) + 32 \<le> NX + 31"
    using dx blocks_times_32 [of NX] unfolding NUM_BLOCKS_1D by linarith
  have lz: "32 * (block div (?bx * ?by)) + 32 < 2 ^ 32"
    using cz nw unfolding no_wrap_def by linarith
  have ly: "32 * ((block mod (?bx * ?by)) div ?bx) + 32 < 2 ^ 32"
    using cy nw unfolding no_wrap_def by linarith
  have lx: "32 * (block mod ?bx) + 32 < 2 ^ 32"
    using cx nw unfolding no_wrap_def by linarith
  show zs: "z_start NX NY block = 32 * (block div (?bx * ?by))"
    using lz by (simp add: z_start_def w BLOCK_SIZE_def wrap32_id)
  show "z_end NX NY NZ block = min (32 * (block div (?bx * ?by)) + 32) NZ"
    using lz by (simp add: z_end_def zs BLOCK_SIZE_def wrap32_id)
  show ys: "y_start NX NY block = 32 * ((block mod (?bx * ?by)) div ?bx)"
    using ly by (simp add: y_start_def w BLOCK_SIZE_def wrap32_id)
  show "y_end NX NY block = min (32 * ((block mod (?bx * ?by)) div ?bx) + 32) NY"
    using ly by (simp add: y_end_def ys BLOCK_SIZE_def wrap32_id)
  show xs: "x_start NX block = 32 * (block mod ?bx)"
    using lx by (simp add: x_start_def BLOCK_SIZE_def wrap32_id)
  show "x_end NX block = min (32 * (block mod ?bx) + 32) NX"
    using lx by (simp add: x_end_def xs BLOCK_SIZE_def wrap32_id)
qed

lemma in_block_iff:
  assumes nw: "no_wrap NX NY NZ"
    and b: "block < NUM_BLOCKS NX NY NZ"
    and c: "x < NX" "y < NY" "z < NZ"
  shows "in_block NX NY NZ block x y z \<longleftrightarrow>
           block div (NUM_BLOCKS_X NX * NUM_BLOCKS_Y NY) = z div 32
           \<and> (block mod (NUM_BLOCKS_X NX * NUM_BLOCKS_Y NY)) div NUM_BLOCKS_X NX = y div 32
           \<and> block mod NUM_BLOCKS_X NX = x div 32"
proof -
  have d: "\<And>a v n::nat. v < n \<Longrightarrow> (32 * a \<le> v \<and> v < min (32 * a + 32) n) \<longleftrightarrow> a = v div 32"
    by auto
  show ?thesis
    unfolding in_block_def no_wrap_ranges [OF nw b]
    using d [OF c(1)] d [OF c(2)] d [OF c(3)] by blast
qed

lemma in_block_valid:
  "in_block NX NY NZ block x y z \<Longrightarrow> x < NX \<and> y < NY \<and> z < NZ"
  by (simp add: in_block_def x_end_def y_end_def z_end_def)

lemma unique_block:
  assumes nw: "no_wrap NX NY NZ" and c: "x < NX" "y < NY" "z < NZ"
  shows "\<exists>!block. block < NUM_BLOCKS NX NY NZ \<and> in_block NX NY NZ block x y z"
proof -
  let ?bx = "NUM_BLOCKS_X NX" and ?by = "NUM_BLOCKS_Y NY" and ?bz = "NUM_BLOCKS_Z NZ"
  let ?b = "(z div 32) * (?bx * ?by) + (y div 32) * ?bx + x div 32"
  have dx: "x div 32 < ?bx" and dy: "y div 32 < ?by" and dz: "z div 32 < ?bz"
    using c by (simp_all add: NUM_BLOCKS_1D div32_less_blocks)
  have dig: "?b mod ?bx = x div 32" "(?b mod (?bx * ?by)) div ?bx = y div 32"
      "?b div (?bx * ?by) = z div 32"
    using block_digits [OF dx dy, of "z div 32"] by simp_all
  have "?b < (z div 32 + 1) * (?bx * ?by)"
  proof -
    have "(y div 32) * ?bx + x div 32 < (y div 32 + 1) * ?bx" using dx by simp
    also have "\<dots> \<le> ?by * ?bx" using dy by (intro mult_le_mono1) simp
    finally show ?thesis by (simp add: mult.commute)
  qed
  also have "\<dots> \<le> ?bz * (?bx * ?by)" using dz by (intro mult_le_mono1) simp
  finally have lt: "?b < NUM_BLOCKS NX NY NZ"
    by (simp add: NUM_BLOCKS_no_wrap [OF nw] mult.commute)
  show ?thesis
  proof (rule ex1I [of _ ?b])
    show "?b < NUM_BLOCKS NX NY NZ \<and> in_block NX NY NZ ?b x y z"
      using lt dig by (simp add: in_block_iff [OF nw lt c])
  next
    fix block
    assume a: "block < NUM_BLOCKS NX NY NZ \<and> in_block NX NY NZ block x y z"
    then have "block div (?bx * ?by) = z div 32"
      "(block mod (?bx * ?by)) div ?bx = y div 32" "block mod ?bx = x div 32"
      using in_block_iff [OF nw _ c, of block] by simp_all
    then show "block = ?b"
      using block_from_digits [of block ?bx ?by] by simp
  qed
qed

lemma set_block_cells:
  "set (block_cells NX NY NZ block) = {(x, y, z). in_block NX NY NZ block x y z}"
  by (fastforce simp: block_cells_def in_block_def)

lemma set_visited:
  "set (visited NX NY NZ)
     = {(x, y, z). \<exists>block < NUM_BLOCKS NX NY NZ. in_block NX NY NZ block x y z}"
  by (auto simp: visited_def set_block_cells)

lemma visited_valid:
  "(x, y, z) \<in> set (visited NX NY NZ) \<Longrightarrow> x < NX \<and> y < NY \<and> z < NZ"
  by (auto simp: set_visited dest: in_block_valid)

lemma distinct_concat_map:
  assumes "distinct xs"
    and "\<And>x. x \<in> set xs \<Longrightarrow> distinct (f x)"
    and "\<And>x y. x \<in> set xs \<Longrightarrow> y \<in> set xs \<Longrightarrow> x \<noteq> y \<Longrightarrow> set (f x) \<inter> set (f y) = {}"
  shows "distinct (concat (map f xs))"
  using assms
proof (induction xs)
  case Nil
  then show ?case by simp
next
  case (Cons a xs)
  have "distinct (concat (map f xs))"
    using Cons by simp
  moreover have "set (f a) \<inter> set (f y) = {}" if "y \<in> set xs" for y
    using Cons.prems(1) Cons.prems(3) [of a y] that by auto
  ultimately show ?case
    using Cons.prems(2) by auto
qed

lemma distinct_block_cells: "distinct (block_cells NX NY NZ block)"
  unfolding block_cells_def
  by (intro distinct_concat_map) (auto simp: distinct_map inj_on_def)

lemma blocks_disjoint:
  assumes nw: "no_wrap NX NY NZ"
    and b: "b < NUM_BLOCKS NX NY NZ" "b' < NUM_BLOCKS NX NY NZ" "b \<noteq> b'"
  shows "set (block_cells NX NY NZ b) \<inter> set (block_cells NX NY NZ b') = {}"
proof (rule ccontr)
  assume "set (block_cells NX NY NZ b) \<inter> set (block_cells NX NY NZ b') \<noteq> {}"
  then obtain x y z where i: "in_block NX NY NZ b x y z" "in_block NX NY NZ b' x y z"
    by (auto simp: set_block_cells)
  then have v: "x < NX" "y < NY" "z < NZ" using in_block_valid by blast+
  from unique_block [OF nw v] i b show False by auto
qed

lemma distinct_visited:
  assumes nw: "no_wrap NX NY NZ"
  shows "distinct (visited NX NY NZ)"
  unfolding visited_def
proof (rule distinct_concat_map)
  show "distinct [0..<NUM_BLOCKS NX NY NZ]" by simp
  show "distinct (block_cells NX NY NZ b)" for b by (rule distinct_block_cells)
  show "set (block_cells NX NY NZ b) \<inter> set (block_cells NX NY NZ b') = {}"
    if "b \<in> set [0..<NUM_BLOCKS NX NY NZ]" "b' \<in> set [0..<NUM_BLOCKS NX NY NZ]" "b \<noteq> b'"
    for b b'
    using blocks_disjoint [OF nw, of b b'] that by simp
qed

lemma distinct_count_list_1: "distinct xs \<Longrightarrow> x \<in> set xs \<Longrightarrow> count_list xs x = 1"
  by (induction xs) (auto simp: count_list_0_iff)

lemma visited_all:
  assumes nw: "no_wrap NX NY NZ"
  shows "set (visited NX NY NZ) = {(x, y, z). x < NX \<and> y < NY \<and> z < NZ}"
proof -
  have "(x, y, z) \<in> set (visited NX NY NZ)" if "x < NX" "y < NY" "z < NZ" for x y z
    using unique_block [OF nw that] by (auto simp: set_visited)
  then show ?thesis
    using visited_valid by auto
qed

subsection \<open>The loop nest as a sequence of stores\<close>

lemma store_all_append:
  "store_all (ws @ ws') con = Option.bind (store_all ws con) (store_all ws')"
proof (induction ws arbitrary: con)
  case Nil
  then show ?case by simp
next
  case (Cons w ws)
  then show ?case by (cases "Continuum_store (fst w) (snd w) con") simp_all
qed

lemma for_loop_store_all:
  assumes "\<And>i c. i \<in> set is \<Longrightarrow> body i c = store_all (f i) c"
  shows "for_loop is body con = store_all (concat (map f is)) con"
  using assms
proof (induction "is" arbitrary: con)
  case Nil
  then show ?case by simp
next
  case (Cons i "is")
  have "for_loop is body = store_all (concat (map f is))"
    using Cons by (intro ext) simp
  then show ?case using Cons.prems by (simp add: store_all_append)
qed

lemma concat_map_concat:
  "concat (map f (concat xss)) = concat (map (\<lambda>xs. concat (map f xs)) xss)"
  by (induction xss) simp_all

lemma cell_store_all:
  "Option.bind (Option.bind (Option.bind
     (Continuum_write lin x y z 0 r con) (Continuum_write lin x y z 1 u))
     (Continuum_write lin x y z 2 v)) (Continuum_write lin x y z 3 w)
   = store_all (cell_writes lin r u v w (x, y, z)) con"
  unfolding Continuum_write_def cell_writes_def
  by (auto split: Option.bind_splits)

lemma InitContinuum_store_all:
  "InitContinuum lin NX NY NZ RHO_0 U_0 V_0 W_0 con =
     store_all (concat (map (cell_writes lin RHO_0 U_0 V_0 W_0) (visited NX NY NZ))) con"
proof -
  let ?cw = "cell_writes lin RHO_0 U_0 V_0 W_0"
  have "InitContinuum lin NX NY NZ RHO_0 U_0 V_0 W_0 con =
      store_all (concat (map (\<lambda>block. concat (map ?cw (block_cells NX NY NZ block)))
        [0..<NUM_BLOCKS NX NY NZ])) con"
    unfolding InitContinuum_def
  proof (rule for_loop_store_all)
    fix block c
    let ?xr = "[x_start NX block..<x_end NX block]"
    let ?yr = "[y_start NX NY block..<y_end NX NY block]"
    let ?zr = "[z_start NX NY block..<z_end NX NY NZ block]"
    let ?cell = "\<lambda>z y x con.
             Option.bind (Option.bind (Option.bind
               (Continuum_write lin x y z 0 RHO_0 con)
               (Continuum_write lin x y z 1 U_0))
               (Continuum_write lin x y z 2 V_0))
               (Continuum_write lin x y z 3 W_0)"
    have xl: "for_loop ?xr (?cell z y) c' = store_all (concat (map (\<lambda>x. ?cw (x, y, z)) ?xr)) c'"
      for y z c'
      by (rule for_loop_store_all) (simp only: cell_store_all)
    have yl: "for_loop ?yr (\<lambda>y. for_loop ?xr (?cell z y)) c'
        = store_all (concat (map (\<lambda>y. concat (map (\<lambda>x. ?cw (x, y, z)) ?xr)) ?yr)) c'"
      for z c'
      by (rule for_loop_store_all) (rule xl)
    have zl: "for_loop ?zr (\<lambda>z. for_loop ?yr (\<lambda>y. for_loop ?xr (?cell z y))) c
        = store_all (concat (map (\<lambda>z. concat (map (\<lambda>y.
            concat (map (\<lambda>x. ?cw (x, y, z)) ?xr)) ?yr)) ?zr)) c"
      by (rule for_loop_store_all) (rule yl)
    have "concat (map ?cw (block_cells NX NY NZ block))
        = concat (map (\<lambda>z. concat (map (\<lambda>y. concat (map (\<lambda>x. ?cw (x, y, z)) ?xr)) ?yr)) ?zr)"
      by (simp add: block_cells_def concat_map_concat comp_def)
    with zl show "for_loop ?zr (\<lambda>z. for_loop ?yr (\<lambda>y. for_loop ?xr (?cell z y))) c
        = store_all (concat (map ?cw (block_cells NX NY NZ block))) c"
      by simp
  qed
  then show ?thesis
    by (simp add: visited_def concat_map_concat comp_def)
qed

subsection \<open>Where the 32-bit arithmetic wraps around\<close>

text \<open>
  For \<open>NX = 2\<^sup>3\<^sup>2 - 2\<close> the block of the last cells starts at \<open>x = 2\<^sup>3\<^sup>2 - 32\<close>; the sum
  \<^verbatim>\<open>x_start + BLOCK_SIZE\<close> is \<open>2\<^sup>3\<^sup>2\<close>, which is 0 in \<^verbatim>\<open>unsigned int\<close>, so that
  \<^verbatim>\<open>x_end = std::min(0, NX) = 0\<close> and the range of the block is empty.
\<close>

lemma x_range_wraps:
  "\<not> (x_start 4294967294 block \<le> 4294967293 \<and> 4294967293 < x_end 4294967294 block)"
proof -
  define j where "j = (block mod NUM_BLOCKS_X 4294967294) mod 134217728"
  have j: "j < 134217728" by (simp add: j_def)
  have "32 * j = (32 * (block mod NUM_BLOCKS_X 4294967294)) mod (32 * 134217728)"
    unfolding j_def by (rule mult_mod_right)
  then have "wrap32 (32 * (block mod NUM_BLOCKS_X 4294967294)) = 32 * j"
    by (simp add: wrap32_def)
  then have xs: "x_start 4294967294 block = 32 * j"
    by (simp add: x_start_def BLOCK_SIZE_def)
  have "\<not> 4294967293 < min ((32 * j + 32) mod 4294967296) (4294967294::nat)"
  proof (cases "j = 134217727")
    case True
    then show ?thesis by simp
  next
    case False
    with j have "32 * j + 32 < 4294967296" by linarith
    then have "(32 * j + 32) mod 4294967296 = 32 * j + 32" by (rule mod_less)
    with j False show ?thesis by linarith
  qed
  then show ?thesis
    by (simp add: x_end_def xs BLOCK_SIZE_def wrap32_def)
qed

text \<open>
  C9. Claimed: every cell of the domain lies in the ranges of exactly one block below
  \<open>NUM_BLOCKS\<close>, so that the blocks together are the whole domain. The block counts are
  rounded up and the ends are clamped with \<^verbatim>\<open>std::min\<close> for that purpose, but the sum
  \<^verbatim>\<open>x_start + BLOCK_SIZE\<close> is taken in \<^verbatim>\<open>unsigned int\<close> before it is clamped: in a domain
  of \<open>(2\<^sup>3\<^sup>2 - 2) \<times> 1 \<times> 1\<close> cells the cell \<open>(2\<^sup>3\<^sup>2 - 3, 0, 0)\<close> lies in the ranges of no block.
\<close>

theorem block_partition_fails_near_2_32:
  "\<not> (\<exists>block < NUM_BLOCKS 4294967294 1 1. in_block 4294967294 1 1 block 4294967293 0 0)"
  using x_range_wraps by (auto simp: in_block_def)

text \<open>
  Away from the wrap-around the decomposition is the partition it is meant to be: when no
  32-bit operation of the block arithmetic wraps around (each extent at most \<open>2\<^sup>3\<^sup>2 - 32\<close>,
  fewer than \<open>2\<^sup>3\<^sup>2\<close> blocks), every cell of the domain lies in the ranges of exactly one
  block below \<open>NUM_BLOCKS\<close>; the cells of two different blocks are disjoint; the blocks
  together are the domain; and \<open>InitContinuum\<close> is the sequence of the four stores at each
  visited cell, where the visited cells are all cells of the domain, each of them once.
\<close>

lemma block_decomposition_partitions:
  assumes nw: "no_wrap NX NY NZ" and c: "x < NX" "y < NY" "z < NZ"
  shows "(\<exists>!block. block < NUM_BLOCKS NX NY NZ \<and> in_block NX NY NZ block x y z)
         \<and> (\<forall>b b'. b < NUM_BLOCKS NX NY NZ \<and> b' < NUM_BLOCKS NX NY NZ \<and> b \<noteq> b'
               \<longrightarrow> set (block_cells NX NY NZ b) \<inter> set (block_cells NX NY NZ b') = {})
         \<and> set (visited NX NY NZ) = {(x, y, z). x < NX \<and> y < NY \<and> z < NZ}
         \<and> distinct (visited NX NY NZ)
         \<and> count_list (visited NX NY NZ) (x, y, z) = 1
         \<and> InitContinuum lin NX NY NZ RHO_0 U_0 V_0 W_0 con
             = store_all (concat (map (cell_writes lin RHO_0 U_0 V_0 W_0) (visited NX NY NZ))) con"
proof -
  have "(x, y, z) \<in> set (visited NX NY NZ)"
    using c by (simp add: visited_all [OF nw])
  then have "count_list (visited NX NY NZ) (x, y, z) = 1"
    using distinct_visited [OF nw] by (intro distinct_count_list_1)
  then show ?thesis
    using unique_block [OF nw c] blocks_disjoint [OF nw] visited_all [OF nw]
      distinct_visited [OF nw] InitContinuum_store_all [of lin NX NY NZ RHO_0 U_0 V_0 W_0 con]
    by blast
qed

lemma no_wrap_main: "no_wrap 192 96 96"
  by (simp add: no_wrap_def NUM_BLOCKS_1D)

text \<open>The domain of \<^verbatim>\<open>main\<close>, \<open>192 \<times> 96 \<times> 96\<close> cells, at the cell \<open>(100, 50, 70)\<close>.\<close>

lemma block_decomposition_partitions_main:
  "(\<exists>!block. block < NUM_BLOCKS 192 96 96 \<and> in_block 192 96 96 block 100 50 70)
   \<and> set (visited 192 96 96) = {(x, y, z). x < 192 \<and> y < 96 \<and> z < 96}
   \<and> distinct (visited 192 96 96)
   \<and> count_list (visited 192 96 96) (100, 50, 70) = 1
   \<and> InitContinuum (Continuum_SpatialToLinear 192 96) 192 96 96 (1::real) (1 / 20) 0 0
        \<lparr>Continuum_M = Some (filled_buffer (192 * 96 * 96 * 4) 0)\<rparr>
       = store_all (concat (map (cell_writes (Continuum_SpatialToLinear 192 96) 1 (1 / 20) 0 0)
           (visited 192 96 96))) \<lparr>Continuum_M = Some (filled_buffer (192 * 96 * 96 * 4) 0)\<rparr>"
  using block_decomposition_partitions [OF no_wrap_main, of 100 50 70
      "Continuum_SpatialToLinear 192 96" "1::real" "1 / 20" 0 0
      "\<lparr>Continuum_M = Some (filled_buffer (192 * 96 * 96 * 4) 0)\<rparr>"]
  by simp

section \<open>The continuum after initialisation\<close>

lemma fold_store_length:
  "length (fold (\<lambda>w b. b[fst w := snd w]) ws buf) = length buf"
  by (induction ws arbitrary: buf) simp_all

lemma fold_store_unwritten:
  "j \<notin> fst ` set ws \<Longrightarrow> fold (\<lambda>w b. b[fst w := snd w]) ws buf ! j = buf ! j"
  by (induction ws arbitrary: buf) auto

lemma fold_store_written:
  assumes "j < length buf" and "(j, c) \<in> set ws"
    and "\<And>w. w \<in> set ws \<Longrightarrow> fst w = j \<Longrightarrow> snd w = c"
  shows "fold (\<lambda>w b. b[fst w := snd w]) ws buf ! j = c"
  using assms
proof (induction ws arbitrary: buf)
  case Nil
  then show ?case by simp
next
  case (Cons w ws)
  show ?case
  proof (cases "j \<in> fst ` set ws")
    case True
    then obtain v where "(j, v) \<in> set ws" by auto
    moreover from this have "v = c" using Cons.prems(3) [of "(j, v)"] by simp
    ultimately have "(j, c) \<in> set ws" by simp
    then show ?thesis using Cons.IH [of "buf[fst w := snd w]"] Cons.prems by simp
  next
    case False
    with Cons.prems(2) have w: "w = (j, c)" by force
    show ?thesis using False Cons.prems(1) by (simp add: fold_store_unwritten w)
  qed
qed

lemma store_all_Some:
  assumes "Continuum_M con = Some buf" and "\<And>w. w \<in> set ws \<Longrightarrow> fst w < length buf"
  shows "store_all ws con = Some \<lparr>Continuum_M = Some (fold (\<lambda>w b. b[fst w := snd w]) ws buf)\<rparr>"
  using assms
proof (induction ws arbitrary: con buf)
  case Nil
  then show ?case by simp
next
  case (Cons w ws)
  have "Continuum_store (fst w) (snd w) con = Some \<lparr>Continuum_M = Some (buf[fst w := snd w])\<rparr>"
    using Cons.prems by (simp add: Continuum_store_def)
  then show ?case
    using Cons.IH [of "\<lparr>Continuum_M = Some (buf[fst w := snd w])\<rparr>" "buf[fst w := snd w]"]
      Cons.prems(2) by simp
qed

lemma Continuum_layout_less:
  "Continuum_layout lin NX NY NZ n \<Longrightarrow> x < NX \<Longrightarrow> y < NY \<Longrightarrow> z < NZ \<Longrightarrow> m < 4
     \<Longrightarrow> lin x y z m < n"
  unfolding Continuum_layout_def by blast

lemma Continuum_layout_inj:
  "Continuum_layout lin NX NY NZ n \<Longrightarrow> x < NX \<Longrightarrow> y < NY \<Longrightarrow> z < NZ \<Longrightarrow> m < 4
     \<Longrightarrow> x' < NX \<Longrightarrow> y' < NY \<Longrightarrow> z' < NZ \<Longrightarrow> m' < 4
     \<Longrightarrow> lin x y z m = lin x' y' z' m' \<Longrightarrow> x = x' \<and> y = y' \<and> z = z' \<and> m = m'"
  unfolding Continuum_layout_def by blast

text \<open>Every store of the loop nest is one of the four slots of a cell of the domain.\<close>

lemma cell_writes_shape:
  assumes "w \<in> set (concat (map (cell_writes lin RHO_0 U_0 V_0 W_0) (visited NX NY NZ)))"
  shows "\<exists>x y z m. x < NX \<and> y < NY \<and> z < NZ \<and> m < 4 \<and> (x, y, z) \<in> set (visited NX NY NZ)
           \<and> w = (lin x y z m,
                  if m = 0 then RHO_0 else if m = 1 then U_0 else if m = 2 then V_0 else W_0)"
proof -
  from assms obtain x y z where v: "(x, y, z) \<in> set (visited NX NY NZ)"
    and w: "w \<in> set (cell_writes lin RHO_0 U_0 V_0 W_0 (x, y, z))" by auto
  from w consider "w = (lin x y z 0, RHO_0)" | "w = (lin x y z 1, U_0)"
    | "w = (lin x y z 2, V_0)" | "w = (lin x y z 3, W_0)"
    unfolding cell_writes_def by auto
  then have "\<exists>m. m < 4 \<and> w = (lin x y z m,
      if m = 0 then RHO_0 else if m = 1 then U_0 else if m = 2 then V_0 else W_0)"
  proof cases
    case 1
    then show ?thesis by (intro exI [of _ 0]) simp
  next
    case 2
    then show ?thesis by (intro exI [of _ 1]) simp
  next
    case 3
    then show ?thesis by (intro exI [of _ 2]) simp
  next
    case 4
    then show ?thesis by (intro exI [of _ 3]) simp
  qed
  with visited_valid [OF v] v show ?thesis by blast
qed

lemma InitContinuum_result:
  assumes lay: "Continuum_layout lin NX NY NZ (length buf)"
    and con: "Continuum_M con = Some buf"
  shows "InitContinuum lin NX NY NZ RHO_0 U_0 V_0 W_0 con =
     Some \<lparr>Continuum_M = Some (fold (\<lambda>w b. b[fst w := snd w])
       (concat (map (cell_writes lin RHO_0 U_0 V_0 W_0) (visited NX NY NZ))) buf)\<rparr>"
  unfolding InitContinuum_store_all
proof (rule store_all_Some [OF con])
  fix w
  assume "w \<in> set (concat (map (cell_writes lin RHO_0 U_0 V_0 W_0) (visited NX NY NZ)))"
  from cell_writes_shape [OF this] obtain x y z m
    where "x < NX" "y < NY" "z < NZ" "m < 4" and "fst w = lin x y z m"
    by force
  with Continuum_layout_less [OF lay] show "fst w < length buf"
    by simp
qed

lemma InitContinuum_unvisited:
  assumes lay: "Continuum_layout lin NX NY NZ (length buf)"
    and con: "Continuum_M con = Some buf"
    and c: "x < NX" "y < NY" "z < NZ" "m < 4"
    and nv: "(x, y, z) \<notin> set (visited NX NY NZ)"
  shows "\<exists>con'. InitContinuum lin NX NY NZ RHO_0 U_0 V_0 W_0 con = Some con'
           \<and> Continuum_read lin x y z m con' = Some (buf ! lin x y z m)"
proof -
  let ?ws = "concat (map (cell_writes lin RHO_0 U_0 V_0 W_0) (visited NX NY NZ))"
  have "lin x y z m \<notin> fst ` set ?ws"
  proof
    assume "lin x y z m \<in> fst ` set ?ws"
    then obtain w where w: "w \<in> set ?ws" and e: "fst w = lin x y z m" by force
    from cell_writes_shape [OF w] obtain x' y' z' m'
      where v': "x' < NX" "y' < NY" "z' < NZ" "m' < 4"
        and vis: "(x', y', z') \<in> set (visited NX NY NZ)"
        and w': "w = (lin x' y' z' m',
                  if m' = 0 then RHO_0 else if m' = 1 then U_0 else if m' = 2 then V_0 else W_0)"
      by blast
    from w' e have "lin x y z m = lin x' y' z' m'" by simp
    with Continuum_layout_inj [OF lay c v'] have "x = x' \<and> y = y' \<and> z = z'"
      by simp
    with vis nv show False by simp
  qed
  then have "fold (\<lambda>w b. b[fst w := snd w]) ?ws buf ! lin x y z m = buf ! lin x y z m"
    by (rule fold_store_unwritten)
  moreover have "lin x y z m < length buf"
    by (rule Continuum_layout_less [OF lay c])
  ultimately show ?thesis
    unfolding InitContinuum_result [OF lay con]
    by (simp add: Continuum_read_def Continuum_load_def fold_store_length)
qed

lemma radix_less: "a < A \<Longrightarrow> b < B \<Longrightarrow> a * B + b < A * (B::nat)"
proof -
  assume a: "a < A" and b: "b < B"
  have "a * B + b < (a + 1) * B" using b by simp
  also have "\<dots> \<le> A * B" using a by (intro mult_le_mono1) simp
  finally show ?thesis .
qed

lemma radix_div: "b < B \<Longrightarrow> (a * B + b) div B = (a::nat)"
  by simp

lemma radix_mod: "b < B \<Longrightarrow> (a * B + b) mod B = (b::nat)"
  by simp

lemma Continuum_SpatialToLinear_less:
  assumes "x < NX" "y < NY" "z < NZ" "m < 4"
  shows "Continuum_SpatialToLinear NX NY x y z m < NX * NY * NZ * 4"
proof -
  have "z * NY + y < NZ * NY" by (rule radix_less [OF assms(3) assms(2)])
  then have "(z * NY + y) * NX + x < NZ * NY * NX" by (rule radix_less [OF _ assms(1)])
  then have "((z * NY + y) * NX + x) * 4 + m < NZ * NY * NX * 4"
    by (rule radix_less [OF _ assms(4)])
  then show ?thesis
    by (simp add: Continuum_SpatialToLinear_def mult.commute mult.left_commute)
qed

lemma Continuum_SpatialToLinear_inj:
  assumes a: "x < NX" "y < NY" "m < 4" "x' < NX" "y' < NY" "m' < 4"
    and "Continuum_SpatialToLinear NX NY x y z m = Continuum_SpatialToLinear NX NY x' y' z' m'"
  shows "x = x' \<and> y = y' \<and> z = z' \<and> m = m'"
proof -
  have e: "((z * NY + y) * NX + x) * 4 + m = ((z' * NY + y') * NX + x') * 4 + m'"
    using assms by (simp add: Continuum_SpatialToLinear_def)
  have m: "m = m'"
    using arg_cong [OF e, of "\<lambda>i. i mod 4"] a by (simp only: radix_mod)
  have e1: "(z * NY + y) * NX + x = (z' * NY + y') * NX + x'"
    using arg_cong [OF e, of "\<lambda>i. i div 4"] a by (simp only: radix_div)
  have x: "x = x'"
    using arg_cong [OF e1, of "\<lambda>i. i mod NX"] a by (simp only: radix_mod)
  have e2: "z * NY + y = z' * NY + y'"
    using arg_cong [OF e1, of "\<lambda>i. i div NX"] a by (simp only: radix_div)
  have y: "y = y'"
    using arg_cong [OF e2, of "\<lambda>i. i mod NY"] a by (simp only: radix_mod)
  have z: "z = z'"
    using arg_cong [OF e2, of "\<lambda>i. i div NY"] a by (simp only: radix_div)
  show ?thesis
    using x y z m by simp
qed

lemma Continuum_SpatialToLinear_layout:
  "Continuum_layout (Continuum_SpatialToLinear NX NY) NX NY NZ (NX * NY * NZ * 4)"
  unfolding Continuum_layout_def
  using Continuum_SpatialToLinear_less [of _ NX _ NY _ NZ]
    Continuum_SpatialToLinear_inj [of _ NX _ NY]
  by blast

lemma length_filled_buffer: "length (filled_buffer n v) = n"
  by (simp add: filled_buffer_def)

lemma nth_filled_buffer: "i < n \<Longrightarrow> filled_buffer n v ! i = v"
  by (simp add: filled_buffer_def)

text \<open>
  C3. Claimed: after \<open>InitContinuum\<close> every cell of the domain reads the four initial
  values, as the comment of the function promises for the whole continuum. In a domain of
  \<open>(2\<^sup>3\<^sup>2 - 2) \<times> 1 \<times> 1\<close> cells whose buffer held zeros, the density slot of the cell
  \<open>(2\<^sup>3\<^sup>2 - 3, 0, 0)\<close> still reads 0 after the initialisation with \<open>RHO_0 = 1\<close>: the end of
  the block of that cell, \<^verbatim>\<open>x_start + BLOCK_SIZE\<close>, wraps around to 0 in \<^verbatim>\<open>unsigned int\<close>,
  and the range of the block is empty.
\<close>

theorem InitContinuum_skips_cell_near_2_32:
  "\<exists>con'. InitContinuum (Continuum_SpatialToLinear 4294967294 1) 4294967294 1 1
              (1::real) (1 / 20) 0 0
              \<lparr>Continuum_M = Some (filled_buffer (4294967294 * 1 * 1 * 4) 0)\<rparr> = Some con'
     \<and> Continuum_read (Continuum_SpatialToLinear 4294967294 1) 4294967293 0 0 0 con' = Some 0"
proof -
  have nv: "(4294967293, 0, 0) \<notin> set (visited 4294967294 1 1)"
    using x_range_wraps by (auto simp: set_visited in_block_def)
  have lay: "Continuum_layout (Continuum_SpatialToLinear 4294967294 1) 4294967294 1 1
      (length (filled_buffer (4294967294 * 1 * 1 * 4) 0))"
    using Continuum_SpatialToLinear_layout [of 4294967294 1 1]
    by (simp only: length_filled_buffer)
  have "filled_buffer (4294967294 * 1 * 1 * 4) 0
          ! Continuum_SpatialToLinear 4294967294 1 4294967293 0 0 0 = 0"
    by (rule nth_filled_buffer) (simp add: Continuum_SpatialToLinear_def)
  with InitContinuum_unvisited [OF lay _ _ _ _ _ nv, of _ 0 1 "1 / 20" 0 0]
  show ?thesis by simp
qed

text \<open>
  Away from the wrap-around the initialisation is complete: when no 32-bit operation of
  the block arithmetic wraps around (each extent at most \<open>2\<^sup>3\<^sup>2 - 32\<close>, fewer than \<open>2\<^sup>3\<^sup>2\<close>
  blocks), \<open>InitContinuum\<close> on an allocated buffer returns, and afterwards every cell
  \<open>(x, y, z)\<close> of the domain reads \<open>RHO_0\<close>, \<open>U_0\<close>, \<open>V_0\<close>, \<open>W_0\<close> in its slots 0 to 3, whatever
  the buffer held before. The offsets of the cells are taken to lie in the buffer and to be
  pairwise different (\<open>Continuum_layout\<close>).
\<close>

lemma InitContinuum_reads:
  assumes nw: "no_wrap NX NY NZ"
    and lay: "Continuum_layout lin NX NY NZ (length buf)"
    and con: "Continuum_M con = Some buf"
    and c: "x < NX" "y < NY" "z < NZ"
  shows "\<exists>con'. InitContinuum lin NX NY NZ RHO_0 U_0 V_0 W_0 con = Some con'
           \<and> Continuum_read lin x y z 0 con' = Some RHO_0
           \<and> Continuum_read lin x y z 1 con' = Some U_0
           \<and> Continuum_read lin x y z 2 con' = Some V_0
           \<and> Continuum_read lin x y z 3 con' = Some W_0"
proof -
  let ?vals = "\<lambda>m::nat. if m = 0 then RHO_0 else if m = 1 then U_0 else if m = 2 then V_0 else W_0"
  let ?ws = "concat (map (cell_writes lin RHO_0 U_0 V_0 W_0) (visited NX NY NZ))"
  let ?buf = "fold (\<lambda>w b. b[fst w := snd w]) ?ws buf"
  have vis: "(x, y, z) \<in> set (visited NX NY NZ)"
    using c by (simp add: visited_all [OF nw])
  have rd: "?buf ! lin x y z m = ?vals m" if m: "m < 4" for m
  proof (rule fold_store_written)
    show "lin x y z m < length buf"
      by (rule Continuum_layout_less [OF lay c m])
    have "(lin x y z m, ?vals m) \<in> set (cell_writes lin RHO_0 U_0 V_0 W_0 (x, y, z))"
      using m unfolding cell_writes_def by (auto simp: less_Suc_eq numeral_eq_Suc)
    with vis show "(lin x y z m, ?vals m) \<in> set ?ws" by auto
    fix w
    assume "w \<in> set ?ws" and e: "fst w = lin x y z m"
    from cell_writes_shape [OF this(1)] obtain x' y' z' m'
      where v': "x' < NX" "y' < NY" "z' < NZ" "m' < 4" and w: "w = (lin x' y' z' m', ?vals m')"
      by blast
    from e w have "lin x y z m = lin x' y' z' m'" by simp
    with Continuum_layout_inj [OF lay c m v'] have "m = m'" by simp
    then show "snd w = ?vals m" using w by simp
  qed
  have len: "lin x y z m < length ?buf" if "m < 4" for m
    unfolding fold_store_length by (rule Continuum_layout_less [OF lay c that])
  show ?thesis
    unfolding InitContinuum_result [OF lay con]
    using rd [of 0] rd [of 1] rd [of 2] rd [of 3] len [of 0] len [of 1] len [of 2] len [of 3]
    by (simp add: Continuum_read_def Continuum_load_def)
qed

lemma no_wrap_16: "no_wrap 16 16 16"
  by (simp add: no_wrap_def NUM_BLOCKS_1D)

text \<open>
  The domain of \<open>16 \<times> 16 \<times> 16\<close> cells initialised with \<open>(1, 0.05, 0, 0)\<close>, at the cell
  \<open>(5, 9, 15)\<close>, from a buffer that held the value 7 everywhere.
\<close>

lemma InitContinuum_reads_16:
  "\<exists>con'. InitContinuum (Continuum_SpatialToLinear 16 16) 16 16 16 (1::real) (1 / 20) 0 0
              \<lparr>Continuum_M = Some (filled_buffer (16 * 16 * 16 * 4) 7)\<rparr> = Some con'
     \<and> Continuum_read (Continuum_SpatialToLinear 16 16) 5 9 15 0 con' = Some 1
     \<and> Continuum_read (Continuum_SpatialToLinear 16 16) 5 9 15 1 con' = Some (1 / 20)
     \<and> Continuum_read (Continuum_SpatialToLinear 16 16) 5 9 15 2 con' = Some 0
     \<and> Continuum_read (Continuum_SpatialToLinear 16 16) 5 9 15 3 con' = Some 0"
  using InitContinuum_reads [of 16 16 16 "Continuum_SpatialToLinear 16 16"
      "filled_buffer (16 * 16 * 16 * 4) 7"
      "\<lparr>Continuum_M = Some (filled_buffer (16 * 16 * 16 * 4) 7)\<rparr>" 5 9 15 "1::real" "1 / 20" 0 0]
    no_wrap_16 Continuum_SpatialToLinear_layout [of 16 16 16]
  by (simp add: length_filled_buffer)

section \<open>The indexing bijection of the population\<close>

lemma LinearToSpatial_SpatialToLinear:
  assumes nd: "ND = 2 * OFF"
    and v: "x < NX" "y < NY" "p < NPOP" "n < 2" "d < OFF"
  shows "LinearToSpatial NX NY NPOP ND OFF (SpatialToLinear NX NY NPOP ND OFF x y z n d p)
           = (x, y, z, p, n, d)"
proof -
  define A where "A = n * OFF + d"
  define B where "B = p * ND + A"
  define C where "C = x * (ND * NPOP) + B"
  define D where "D = y * (ND * NPOP * NX) + C"
  have A: "A < ND" unfolding A_def nd using v(4,5) radix_less [of n 2 d OFF] by simp
  have B: "B < ND * NPOP" unfolding B_def using radix_less [OF v(3) A] by (simp add: mult.commute)
  have C: "C < ND * NPOP * NX" unfolding C_def using radix_less [OF v(1) B] by (simp add: mult.commute)
  have D: "D < ND * NPOP * NX * NY" unfolding D_def using radix_less [OF v(2) C] by (simp add: mult.commute)
  have i: "SpatialToLinear NX NY NPOP ND OFF x y z n d p = z * (ND * NPOP * NX * NY) + D"
    by (simp add: SpatialToLinear_def A_def B_def C_def D_def algebra_simps)
  have z: "(z * (ND * NPOP * NX * NY) + D) div (ND * NPOP * NX * NY) = z"
    using D by (rule radix_div)
  have r1: "(z * (ND * NPOP * NX * NY) + D) mod (ND * NPOP * NX * NY) = D"
    using D by (rule radix_mod)
  have y: "D div (ND * NPOP * NX) = y" unfolding D_def using C by (rule radix_div)
  have r2: "D mod (ND * NPOP * NX) = C" unfolding D_def using C by (rule radix_mod)
  have x: "C div (ND * NPOP) = x" unfolding C_def using B by (rule radix_div)
  have r3: "C mod (ND * NPOP) = B" unfolding C_def using B by (rule radix_mod)
  have p: "B div ND = p" unfolding B_def using A by (rule radix_div)
  have r4: "B mod ND = A" unfolding B_def using A by (rule radix_mod)
  have n: "A div OFF = n" unfolding A_def using v(5) by (rule radix_div)
  have d: "A mod OFF = d" unfolding A_def using v(5) by (rule radix_mod)
  show ?thesis
    unfolding i LinearToSpatial_def Let_def z r1 y r2 x r3 p r4 n d ..
qed

lemma SpatialToLinear_less:
  assumes nd: "ND = 2 * OFF"
    and v: "x < NX" "y < NY" "z < NZ" "p < NPOP" "n < 2" "d < OFF"
  shows "SpatialToLinear NX NY NPOP ND OFF x y z n d p < NX * NY * NZ * NPOP * ND"
proof -
  have a: "n * OFF + d < ND" unfolding nd using v(5,6) radix_less [of n 2 d OFF] by simp
  have "z * NY + y < NZ * NY" by (rule radix_less [OF v(3) v(2)])
  then have "(z * NY + y) * NX + x < NZ * NY * NX" by (rule radix_less [OF _ v(1)])
  then have "((z * NY + y) * NX + x) * NPOP + p < NZ * NY * NX * NPOP"
    by (rule radix_less [OF _ v(4)])
  then have "(((z * NY + y) * NX + x) * NPOP + p) * ND + (n * OFF + d) < NZ * NY * NX * NPOP * ND"
    by (rule radix_less [OF _ a])
  then show ?thesis
    by (simp add: SpatialToLinear_def add.assoc mult.commute mult.left_commute)
qed

lemma SpatialToLinear_LinearToSpatial:
  assumes nd: "ND = 2 * OFF"
    and i: "index < NX * NY * NZ * NPOP * ND"
  shows "LinearToSpatial NX NY NPOP ND OFF index \<in> valid_coordinates NX NY NZ NPOP OFF"
    and "(case LinearToSpatial NX NY NPOP ND OFF index of
            (x, y, z, p, n, d) \<Rightarrow> SpatialToLinear NX NY NPOP ND OFF x y z n d p) = index"
proof -
  let ?F1 = "ND * NPOP * NX * NY" and ?F2 = "ND * NPOP * NX" and ?F3 = "ND * NPOP"
  define r1 where "r1 = index mod ?F1"
  define r2 where "r2 = r1 mod ?F2"
  define r3 where "r3 = r2 mod ?F3"
  define r4 where "r4 = r3 mod ND"
  from i have pos: "0 < NX * NY * NZ * NPOP * ND" by linarith
  then have nz: "0 < NX" "0 < NY" "0 < NZ" "0 < NPOP" "0 < ND" by simp_all
  then have off: "0 < OFF" using nd by simp
  have "index < NZ * ?F1" using i by (simp add: mult.commute mult.left_commute)
  then have z: "index div ?F1 < NZ" by (rule less_mult_imp_div_less)
  have "r1 < NY * ?F2" unfolding r1_def using nz by (simp add: mult.commute)
  then have y: "r1 div ?F2 < NY" by (rule less_mult_imp_div_less)
  have "r2 < NX * ?F3" unfolding r2_def using nz by (simp add: mult.commute)
  then have x: "r2 div ?F3 < NX" by (rule less_mult_imp_div_less)
  have "r3 < NPOP * ND" unfolding r3_def using nz by (simp add: mult.commute)
  then have p: "r3 div ND < NPOP" by (rule less_mult_imp_div_less)
  have "r4 < 2 * OFF" unfolding r4_def using nz nd by simp
  then have n: "r4 div OFF < 2" by (rule less_mult_imp_div_less)
  have d: "r4 mod OFF < OFF" using off by simp
  have L: "LinearToSpatial NX NY NPOP ND OFF index
      = (r2 div ?F3, r1 div ?F2, index div ?F1, r3 div ND, r4 div OFF, r4 mod OFF)"
    by (simp add: LinearToSpatial_def Let_def r1_def r2_def r3_def r4_def)
  show "LinearToSpatial NX NY NPOP ND OFF index \<in> valid_coordinates NX NY NZ NPOP OFF"
    unfolding L valid_coordinates_def using x y z p n d by simp
  have e4: "r4 div OFF * OFF + r4 mod OFF = r4" by (rule div_mult_mod_eq)
  have e3: "r3 div ND * ND + r4 = r3" unfolding r4_def by (rule div_mult_mod_eq)
  have e2: "r2 div ?F3 * ?F3 + r3 = r2" unfolding r3_def by (rule div_mult_mod_eq)
  have e1: "r1 div ?F2 * ?F2 + r2 = r1" unfolding r2_def by (rule div_mult_mod_eq)
  have e0: "index div ?F1 * ?F1 + r1 = index" unfolding r1_def by (rule div_mult_mod_eq)
  have "SpatialToLinear NX NY NPOP ND OFF (r2 div ?F3) (r1 div ?F2) (index div ?F1)
          (r4 div OFF) (r4 mod OFF) (r3 div ND)
        = index div ?F1 * ?F1 + (r1 div ?F2 * ?F2 + (r2 div ?F3 * ?F3
            + (r3 div ND * ND + (r4 div OFF * OFF + r4 mod OFF))))"
    by (simp add: SpatialToLinear_def algebra_simps)
  also have "\<dots> = index" unfolding e4 e3 e2 e1 e0 ..
  finally show "(case LinearToSpatial NX NY NPOP ND OFF index of
            (x, y, z, p, n, d) \<Rightarrow> SpatialToLinear NX NY NPOP ND OFF x y z n d p) = index"
    unfolding L by simp
qed

text \<open>
  C6. For the layout modelled from the spec, with \<open>ND = 2 \<cdot> OFF\<close> values per cell: for all
  coordinates \<open>x < NX\<close>, \<open>y < NY\<close>, \<open>z < NZ\<close>, \<open>p < NPOP\<close>, half \<open>n < 2\<close> and direction
  \<open>d < OFF\<close>, \<open>LinearToSpatial\<close> applied to the offset \<open>SpatialToLinear\<close> gives back the
  coordinates; the offset lies in the buffer of \<open>NX \<cdot> NY \<cdot> NZ \<cdot> NPOP \<cdot> ND\<close> values; and
  \<open>SpatialToLinear\<close> is a bijection from the coordinates onto the offsets of the buffer.
\<close>

theorem indexing_bijection:
  assumes nd: "ND = 2 * OFF"
    and v: "x < NX" "y < NY" "z < NZ" "p < NPOP" "n < 2" "d < OFF"
  shows "LinearToSpatial NX NY NPOP ND OFF (SpatialToLinear NX NY NPOP ND OFF x y z n d p)
           = (x, y, z, p, n, d)
         \<and> SpatialToLinear NX NY NPOP ND OFF x y z n d p < NX * NY * NZ * NPOP * ND
         \<and> bij_betw (\<lambda>(x, y, z, p, n, d). SpatialToLinear NX NY NPOP ND OFF x y z n d p)
              (valid_coordinates NX NY NZ NPOP OFF) {..<NX * NY * NZ * NPOP * ND}"
proof -
  let ?f = "\<lambda>(x, y, z, p, n, d). SpatialToLinear NX NY NPOP ND OFF x y z n d p"
  have "bij_betw ?f (valid_coordinates NX NY NZ NPOP OFF) {..<NX * NY * NZ * NPOP * ND}"
  proof (rule bij_betw_byWitness [where f' = "LinearToSpatial NX NY NPOP ND OFF"])
    show "\<forall>a\<in>valid_coordinates NX NY NZ NPOP OFF. LinearToSpatial NX NY NPOP ND OFF (?f a) = a"
      using LinearToSpatial_SpatialToLinear [OF nd] by (auto simp: valid_coordinates_def)
    show "\<forall>a'\<in>{..<NX * NY * NZ * NPOP * ND}. ?f (LinearToSpatial NX NY NPOP ND OFF a') = a'"
      using SpatialToLinear_LinearToSpatial(2) [OF nd] by simp
    show "?f ` valid_coordinates NX NY NZ NPOP OFF \<subseteq> {..<NX * NY * NZ * NPOP * ND}"
      using SpatialToLinear_less [OF nd] by (auto simp: valid_coordinates_def)
    show "LinearToSpatial NX NY NPOP ND OFF ` {..<NX * NY * NZ * NPOP * ND}
            \<subseteq> valid_coordinates NX NY NZ NPOP OFF"
      using SpatialToLinear_LinearToSpatial(1) [OF nd] by auto
  qed
  then show ?thesis
    using LinearToSpatial_SpatialToLinear [OF nd v(1,2,4,5,6)] SpatialToLinear_less [OF nd v]
    by simp
qed

theorem indexing_bijection_witness:
  "LinearToSpatial 192 96 1 28 14 (SpatialToLinear 192 96 1 28 14 100 50 70 1 13 0)
     = (100, 50, 70, 0, 1, 13)
   \<and> SpatialToLinear 192 96 1 28 14 100 50 70 1 13 0 < 192 * 96 * 96 * 1 * 28
   \<and> bij_betw (\<lambda>(x, y, z, p, n, d). SpatialToLinear 192 96 1 28 14 x y z n d p)
        (valid_coordinates 192 96 96 1 14) {..<192 * 96 * 96 * 1 * 28}"
  using indexing_bijection [of 28 14 100 192 50 96 70 96 0 1 1 13] by simp

section \<open>Loading a cell\<close>

lemma for_loop_append:
  "for_loop (xs @ ys) body s = Option.bind (for_loop xs body s) (for_loop ys body)"
proof (induction xs arbitrary: s)
  case Nil
  then show ?case by simp
next
  case (Cons i xs)
  then show ?case by (cases "body i s") simp_all
qed

text \<open>The inner loop over \<open>d\<close>, after \<open>k\<close> iterations, for the half that starts at \<open>b\<close>.\<close>

lemma Load_inner:
  assumes k: "k \<le> OFF" and len: "b + OFF \<le> length f"
    and rd: "\<And>d. d < OFF \<Longrightarrow> idx d < length F"
  shows "for_loop [0..<k] (\<lambda>d f.
            if idx d < length F \<and> b + d < length f then Some (f[b + d := F ! idx d]) else None) f
         = Some (map (\<lambda>j. if b \<le> j \<and> j < b + k then F ! idx (j - b) else f ! j) [0..<length f])"
  using k
proof (induction k)
  case 0
  have "(\<lambda>j. if b \<le> j \<and> j < b + 0 then F ! idx (j - b) else f ! j) = (\<lambda>j. f ! j)"
    by (rule ext) auto
  then show ?case by (simp add: map_nth)
next
  case (Suc k)
  let ?g = "map (\<lambda>j. if b \<le> j \<and> j < b + k then F ! idx (j - b) else f ! j) [0..<length f]"
  have idx: "idx k < length F" using Suc.prems rd by simp
  have pos: "b + k < length ?g" using Suc.prems len by simp
  have "?g[b + k := F ! idx k]
      = map (\<lambda>j. if b \<le> j \<and> j < b + Suc k then F ! idx (j - b) else f ! j) [0..<length f]"
    by (rule nth_equalityI) (auto simp: nth_list_update less_Suc_eq)
  then show ?case
    using Suc idx pos by (simp add: for_loop_append)
qed

lemma Load_closed_form:
  assumes nd: "2 * OFF \<le> length f" and off: "0 < OFF"
    and rd: "\<And>n d. n < 2 \<Longrightarrow> d < OFF \<Longrightarrow> AA_IndexRead od x y z n d p < length F"
  shows "Load AA_IndexRead OFF F od x y z f p =
           Some (map (\<lambda>k. if k = OFF then 0
                          else if k < 2 * OFF
                            then F ! AA_IndexRead od x y z (k div OFF) (k mod OFF) p
                            else f ! k) [0..<length f])"
proof -
  let ?idx = "\<lambda>n d. AA_IndexRead od x y z n d p"
  let ?body = "\<lambda>n d f. if ?idx n d < length F \<and> n * OFF + d < length f
                 then Some (f[n * OFF + d := F ! ?idx n d]) else None"
  let ?g0 = "map (\<lambda>j. if 0 * OFF \<le> j \<and> j < 0 * OFF + OFF then F ! ?idx 0 (j - 0 * OFF) else f ! j)
               [0..<length f]"
  let ?g1 = "map (\<lambda>j. if 1 * OFF \<le> j \<and> j < 1 * OFF + OFF then F ! ?idx 1 (j - 1 * OFF) else ?g0 ! j)
               [0..<length ?g0]"
  have s0: "for_loop [0..<OFF] (?body 0) f = Some ?g0"
    by (rule Load_inner [where OFF = OFF]) (use nd rd [of 0] in simp_all)
  have s1: "for_loop [0..<OFF] (?body 1) ?g0 = Some ?g1"
    by (rule Load_inner [where OFF = OFF]) (use nd rd [of 1] in simp_all)
  have two: "[0..<2] = [0, 1::nat]" by (simp add: upt_rec)
  have outer: "for_loop [0..<2] (\<lambda>n. for_loop [0..<OFF] (?body n)) f = Some ?g1"
    by (simp only: two for_loop.simps s0 s1 Option.bind.simps)
  have fin: "?g1[OFF := 0]
      = map (\<lambda>k. if k = OFF then 0
                 else if k < 2 * OFF then F ! ?idx (k div OFF) (k mod OFF) else f ! k)
          [0..<length f]"
  proof (rule nth_equalityI)
    show "length (?g1[OFF := 0]) = length (map (\<lambda>k. if k = OFF then 0
        else if k < 2 * OFF then F ! ?idx (k div OFF) (k mod OFF) else f ! k) [0..<length f])"
      by simp
  next
    fix i
    assume "i < length (?g1[OFF := 0])"
    then have i: "i < length f" by simp
    consider "i < OFF" | "OFF \<le> i" "i < 2 * OFF" | "2 * OFF \<le> i" by linarith
    then show "?g1[OFF := 0] ! i = map (\<lambda>k. if k = OFF then 0
        else if k < 2 * OFF then F ! ?idx (k div OFF) (k mod OFF) else f ! k) [0..<length f] ! i"
    proof cases
      case 1
      then show ?thesis using i by (simp add: nth_list_update)
    next
      case 2
      then have "i div OFF = 1" "i mod OFF = i - OFF"
        using off by (simp_all add: div_nat_eqI mod_if)
      then show ?thesis using 2 i by (simp add: nth_list_update)
    next
      case 3
      then show ?thesis using i off by (simp add: nth_list_update)
    qed
  qed
  have "Load AA_IndexRead OFF F od x y z f p = Some (?g1[OFF := 0])"
    unfolding Load_def outer using nd off by simp
  then show ?thesis
    unfolding fin .
qed

text \<open>
  C10. For either parity, every population index and every content of the buffer, \<open>Load\<close>
  returns (given that the \<open>2 \<cdot> OFF\<close> offsets of \<^verbatim>\<open>AA_IndexRead\<close> lie in the buffer and the
  local array has at least \<open>2 \<cdot> OFF\<close> entries, \<open>OFF > 0\<close>) the array whose entry
  \<open>n \<cdot> OFF + d\<close> is the buffer value at \<^verbatim>\<open>AA_IndexRead(x,y,z,n,d,p)\<close> for every half \<open>n\<close> and
  direction \<open>d\<close> except \<open>n = 1\<close>, \<open>d = 0\<close>: the entry \<open>OFF\<close> is 0. The value read for
  \<open>n = 1\<close>, \<open>d = 0\<close> is discarded: where no other read uses its offset, the result is the
  same for every value \<open>v\<close> the buffer may hold there.
\<close>

theorem Load_result:
  assumes nd: "2 * OFF \<le> length f" and off: "0 < OFF"
    and rd: "\<And>n d. n < 2 \<Longrightarrow> d < OFF \<Longrightarrow> AA_IndexRead od x y z n d p < length F"
  shows "\<exists>f'. Load AA_IndexRead OFF F od x y z f p = Some f'
           \<and> f' = map (\<lambda>k. if k = OFF then 0
                          else if k < 2 * OFF
                            then F ! AA_IndexRead od x y z (k div OFF) (k mod OFF) p
                            else f ! k) [0..<length f]
           \<and> f' ! OFF = 0
           \<and> ((\<forall>n d. n < 2 \<and> d < OFF \<and> (n, d) \<noteq> (1, 0)
                  \<longrightarrow> AA_IndexRead od x y z n d p \<noteq> AA_IndexRead od x y z 1 0 p)
                \<longrightarrow> Load AA_IndexRead OFF (F[AA_IndexRead od x y z 1 0 p := v]) od x y z f p
                      = Some f')"
proof -
  let ?idx = "\<lambda>n d. AA_IndexRead od x y z n d p"
  let ?F' = "F[?idx 1 0 := v]"
  let ?r = "\<lambda>G. map (\<lambda>k. if k = OFF then 0
                          else if k < 2 * OFF then G ! ?idx (k div OFF) (k mod OFF) else f ! k)
                    [0..<length f]"
  have a: "Load AA_IndexRead OFF F od x y z f p = Some (?r F)"
    using nd off rd by (rule Load_closed_form [of OFF f AA_IndexRead od x y z p F])
  have "AA_IndexRead od x y z n d p < length ?F'" if "n < 2" "d < OFF" for n d
    using rd [OF that] by simp
  with nd off have b: "Load AA_IndexRead OFF ?F' od x y z f p = Some (?r ?F')"
    by (rule Load_closed_form [of OFF f AA_IndexRead od x y z p ?F'])
  have c: "?r ?F' = ?r F"
    if sep: "\<forall>n d. n < 2 \<and> d < OFF \<and> (n, d) \<noteq> (1, 0) \<longrightarrow> ?idx n d \<noteq> ?idx 1 0"
  proof (rule map_cong [OF refl])
    fix k
    assume "k \<in> set [0..<length f]"
    show "(if k = OFF then 0 else if k < 2 * OFF then ?F' ! ?idx (k div OFF) (k mod OFF) else f ! k)
        = (if k = OFF then 0 else if k < 2 * OFF then F ! ?idx (k div OFF) (k mod OFF) else f ! k)"
    proof (cases "k \<noteq> OFF \<and> k < 2 * OFF")
      case False
      then show ?thesis by auto
    next
      case True
      then have n: "k div OFF < 2" by (simp add: less_mult_imp_div_less)
      have d: "k mod OFF < OFF" using off by simp
      have "(k div OFF, k mod OFF) \<noteq> (1, 0)"
      proof
        assume "(k div OFF, k mod OFF) = (1, 0)"
        then have "k = 1 * OFF + 0" by (metis div_mult_mod_eq fst_conv snd_conv)
        with True show False by simp
      qed
      with sep n d have "?idx (k div OFF) (k mod OFF) \<noteq> ?idx 1 0" by blast
      then show ?thesis by simp
    qed
  qed
  have "?r F ! OFF = 0" using nd off by simp
  with a b c show ?thesis by auto
qed

theorem Load_result_witness:
  "\<exists>f'. Load (\<lambda>od x y z n d p. 2 * n + d + 1) 2 [7, 10, 20, 30, 40 :: int] True
            [0, 1, 2] [0, 1, 2] [0, 1, 2] [5, 5, 5, 5, 5] 0 = Some f'
     \<and> f' = [10, 20, 0, 40, 5]
     \<and> f' ! 2 = 0
     \<and> Load (\<lambda>od x y z n d p. 2 * n + d + 1) 2 [7, 10, 20, 99, 40 :: int] True
            [0, 1, 2] [0, 1, 2] [0, 1, 2] [5, 5, 5, 5, 5] 0 = Some f'"
proof -
  have sep: "\<forall>n d. n < 2 \<and> d < 2 \<and> (n, d) \<noteq> (1, 0) \<longrightarrow> 2 * n + d + 1 \<noteq> 2 * 1 + 0 + (1::nat)"
    by auto presburger
  show ?thesis
    using sep Load_result [of 2 "[5, 5, 5, 5, 5 :: int]" "\<lambda>od x y z n d p. 2 * n + d + 1" True
        "[0, 1, 2]" "[0, 1, 2]" "[0, 1, 2]" 0 "[7, 10, 20, 30, 40]" 99]
    by (simp add: upt_rec)
qed


end
